theory Spec2Isabelle
  imports Complex_Main "HOL-Library.Word"
begin

section \<open>The coefficient engine of the binom-viz widget (src/binomial.js)\<close>

subsection \<open>Data model\<close>

text \<open>
  The values \<open>pascal\<close> throws. The source throws two strings of its own, which the
  specification names \<open>InvalidArgument\<close> (\<open>n must be >= 1\<close>; also the string
  \<open>probit\<close> throws outside of [0,1]) and
  \<open>ComputationTooLarge\<close> (\<open>You must be kidding!\<close>); the other two are raised by the
  JavaScript runtime: \<open>RangeError\<close> by an array constructor given a negative length,
  \<open>TypeError\<close> by an addition of \<open>undefined\<close> and a BigInt.
\<close>

datatype error = InvalidArgument | ComputationTooLarge | RangeError | TypeError

text \<open>
  A cached row is one of the two kinds of array the source allocates: a
  \<open>BigInt64Array\<close>, whose elements are 64-bit two's complement integers, or a plain
  \<open>Array\<close> of BigInts, which are unbounded.
\<close>

datatype row = BigInt64Array "64 word list" | Array "int list"

fun row_length :: "row \<Rightarrow> nat" where
  "row_length (BigInt64Array ws) = length ws"
| "row_length (Array xs) = length xs"

text \<open>Reading \<open>r[k]\<close> gives a BigInt, or \<open>undefined\<close> (\<open>None\<close>) out of range.\<close>

fun row_get :: "row \<Rightarrow> nat \<Rightarrow> int option" where
  "row_get (BigInt64Array ws) k = (if k < length ws then Some (sint (ws ! k)) else None)"
| "row_get (Array xs) k = (if k < length xs then Some (xs ! k) else None)"

text \<open>
  \<open>r[k] += v\<close>: the sum is an exact BigInt; storing it into a \<open>BigInt64Array\<close> keeps
  its low 64 bits. Out of range the element read is \<open>undefined\<close> and the addition
  throws a \<open>TypeError\<close> (\<open>None\<close>) before anything is written.
\<close>

fun add_at :: "row \<Rightarrow> nat \<Rightarrow> int \<Rightarrow> row option" where
  "add_at (BigInt64Array ws) k v =
     (if k < length ws then Some (BigInt64Array (ws[k := word_of_int (sint (ws ! k) + v)]))
      else None)"
| "add_at (Array xs) k v =
     (if k < length xs then Some (Array (xs[k := xs ! k + v])) else None)"

text \<open>
  The state of a widget, as far as \<open>pascal\<close> reads or writes it: the value
  \<open>parseInt\<close> gives for the attribute \<open>die\<close> (\<open>None\<close> is \<open>NaN\<close>, also when the
  attribute is missing), and the sparse array \<open>triangle\<close>.
\<close>

record binom_viz =
  die_attr :: "int option"
  triangle :: "int \<rightharpoonup> row"

text \<open>The constructor: \<open>this.triangle = new Array()\<close>.\<close>

definition new_binom_viz :: "int option \<Rightarrow> binom_viz" where
  "new_binom_viz a = \<lparr>die_attr = a, triangle = Map.empty\<rparr>"

text \<open>The getter \<open>die\<close>: \<open>parseInt(this.getAttribute("die")) || 2\<close>.\<close>

definition die :: "binom_viz \<Rightarrow> int" where
  "die s = (case die_attr s of None \<Rightarrow> 2 | Some d \<Rightarrow> if d = 0 then 2 else d)"

text \<open>Setting the attribute \<open>die\<close> changes nothing else in the widget.\<close>

definition set_die :: "int option \<Rightarrow> binom_viz \<Rightarrow> binom_viz" where
  "set_die a s = s\<lparr>die_attr := a\<rparr>"

subsection \<open>The convolution loops\<close>

text \<open>
  The body of the inner loop, \<open>this.triangle[n][i+j] += left[i] * right[j]\<close>, for
  \<open>j\<close> running over the indices given. A \<open>TypeError\<close> stops the loops and leaves
  the row as it is at that moment.
\<close>

fun loop_j :: "row \<Rightarrow> row \<Rightarrow> nat \<Rightarrow> nat list \<Rightarrow> row \<Rightarrow> error option \<times> row" where
  "loop_j left right i [] acc = (None, acc)"
| "loop_j left right i (j # js) acc =
     (case (row_get left i, row_get right j) of
        (Some l, Some r) \<Rightarrow>
          (case add_at acc (i + j) (l * r) of
             Some acc' \<Rightarrow> loop_j left right i js acc'
           | None \<Rightarrow> (Some TypeError, acc))
      | _ \<Rightarrow> (Some TypeError, acc))"

fun loop_i :: "row \<Rightarrow> row \<Rightarrow> nat list \<Rightarrow> row \<Rightarrow> error option \<times> row" where
  "loop_i left right [] acc = (None, acc)"
| "loop_i left right (i # is) acc =
     (case loop_j left right i [0..<row_length right] acc of
        (None, acc') \<Rightarrow> loop_i left right is acc'
      | (Some e, acc') \<Rightarrow> (Some e, acc'))"

definition convolve :: "row \<Rightarrow> row \<Rightarrow> row \<Rightarrow> error option \<times> row" where
  "convolve acc left right = loop_i left right [0..<row_length left] acc"

subsection \<open>pascal\<close>

text \<open>
  \<open>n < 27 ? new BigInt64Array(len) : new Array(len).fill(0n)\<close>; both constructors
  throw a \<open>RangeError\<close> on a negative length.
\<close>

definition alloc :: "int \<Rightarrow> int \<Rightarrow> error + row" where
  "alloc n len =
     (if len < 0 then Inl RangeError
      else if n < 27 then Inr (BigInt64Array (replicate (nat len) 0))
      else Inr (Array (replicate (nat len) 0)))"

text \<open>\<open>n >> 1\<close>: the operand is converted to a 32-bit signed integer and shifted.\<close>

definition shr1 :: "int \<Rightarrow> int" where
  "shr1 n = sint (word_of_int n :: 32 word) div 2"

text \<open>
  \<open>pascal(n)\<close>. The result pairs what the call returns or throws with the widget
  afterwards: a row is stored in \<open>triangle\<close> before the recursive calls fill it, so a
  throw from below would leave it there. The recursion is on \<open>n >> 1\<close> and
  \<open>n - (n >> 1)\<close>, both smaller than \<open>n\<close> whenever the guards let them be reached.
\<close>

function pascal :: "int \<Rightarrow> binom_viz \<Rightarrow> (error + row) \<times> binom_viz" where
  "pascal n s =
     (if n < 1 then (Inl InvalidArgument, s)
      else case triangle s n of
        Some r \<Rightarrow> (Inr r, s)
      | None \<Rightarrow>
          if n = 1 then
            (let r = BigInt64Array (replicate (nat (die s)) 1)
             in (Inr r, s\<lparr>triangle := (triangle s)(n \<mapsto> r)\<rparr>))
          else if n * die s > 1000 then (Inl ComputationTooLarge, s)
          else
            (case alloc n ((die s - 1) * n + 1) of
               Inl e \<Rightarrow> (Inl e, s)
             | Inr z \<Rightarrow>
                 (case pascal (shr1 n) (s\<lparr>triangle := (triangle s)(n \<mapsto> z)\<rparr>) of
                    (Inl e, s2) \<Rightarrow> (Inl e, s2)
                  | (Inr left, s2) \<Rightarrow>
                      (case pascal (n - shr1 n) s2 of
                         (Inl e, s3) \<Rightarrow> (Inl e, s3)
                       | (Inr right, s3) \<Rightarrow>
                           (case triangle s3 n of
                              None \<Rightarrow> (Inl TypeError, s3)
                            | Some acc \<Rightarrow>
                                (case convolve acc left right of
                                   (Some e, acc') \<Rightarrow>
                                     (Inl e, s3\<lparr>triangle := (triangle s3)(n \<mapsto> acc')\<rparr>)
                                 | (None, acc') \<Rightarrow>
                                     (Inr acc', s3\<lparr>triangle := (triangle s3)(n \<mapsto> acc')\<rparr>)))))))"
  by pat_completeness auto
termination
proof (relation "measure (\<lambda>(n, s). nat n)")
  show "wf (measure (\<lambda>(n, s). nat n))" by simp
next
  have half: "shr1 n = n div 2"
    if a: "\<not> n < 1" "\<not> 1000 < n * die s" "alloc n ((die s - 1) * n + 1) = Inr z"
    for n s z
  proof -
    have len: "0 \<le> (die s - 1) * n + 1"
      using a(3) by (auto simp: alloc_def split: if_splits)
    have n1: "1 \<le> n" using a(1) by simp
    have "die s \<noteq> 0" by (simp add: die_def split: option.splits)
    have "0 < die s"
    proof (rule ccontr)
      assume "\<not> 0 < die s"
      then have "die s - 1 \<le> -2" using \<open>die s \<noteq> 0\<close> by linarith
      then have "(die s - 1) * n \<le> -2 * n"
        using n1 by (intro mult_right_mono) auto
      then show False using len n1 by linarith
    qed
    then have "n * 1 \<le> n * die s"
      using n1 by (intro mult_left_mono) auto
    then have "n \<le> 1000" using a(2) by linarith
    then have "sint (word_of_int n :: 32 word) = n"
      using n1 by (simp add: sint_sbintrunc' signed_take_bit_int_eq_self)
    then show ?thesis by (simp add: shr1_def)
  qed
  {
    fix n :: int and s :: binom_viz and z
    assume a: "\<not> n < 1" "n \<noteq> 1" "\<not> 1000 < n * die s"
      "alloc n ((die s - 1) * n + 1) = Inr z"
    show "((shr1 n, s\<lparr>triangle := (triangle s)(n \<mapsto> z)\<rparr>), n, s) \<in> measure (\<lambda>(n, s). nat n)"
      using half [OF a(1) a(3) a(4)] a(1,2) by simp
  next
    fix n :: int and s :: binom_viz and z and s2 :: binom_viz
    assume a: "\<not> n < 1" "n \<noteq> 1" "\<not> 1000 < n * die s"
      "alloc n ((die s - 1) * n + 1) = Inr z"
    show "((n - shr1 n, s2), n, s) \<in> measure (\<lambda>(n, s). nat n)"
      using half [OF a(1) a(3) a(4)] a(1,2) by simp
  }
qed

declare pascal.simps [simp del]

text \<open>
  Any sequence of calls made on a widget, whatever they return or throw: what
  \<open>connectedCallback\<close>'s precompute loop and every later \<open>draw\<close> amount to.
\<close>

fun pascal_calls :: "int list \<Rightarrow> binom_viz \<Rightarrow> binom_viz" where
  "pascal_calls [] s = s"
| "pascal_calls (k # ks) s = pascal_calls ks (snd (pascal k s))"

subsection \<open>The specification's exact coefficients\<close>

text \<open>
  The specification's row: the integer coefficients of
  \<open>(1 + x + \<dots> + x^(die-1))^n\<close>, lowest power first, with polynomials as coefficient
  lists over the unbounded integers. This definition follows the specification, not
  the source.
\<close>

fun padd :: "int list \<Rightarrow> int list \<Rightarrow> int list" where
  "padd [] ys = ys"
| "padd xs [] = xs"
| "padd (x # xs) (y # ys) = (x + y) # padd xs ys"

fun pmul :: "int list \<Rightarrow> int list \<Rightarrow> int list" where
  "pmul [] ys = []"
| "pmul (x # xs) ys = padd (map ((*) x) ys) (0 # pmul xs ys)"

fun ppow :: "int list \<Rightarrow> nat \<Rightarrow> int list" where
  "ppow p 0 = [1]"
| "ppow p (Suc n) = pmul p (ppow p n)"

definition coefficients :: "nat \<Rightarrow> nat \<Rightarrow> int list" where
  "coefficients d n = ppow (replicate d 1) n"

subsection \<open>What a row holds, and the invariant of the cache\<close>

text \<open>Whether a row is a typed array, and the BigInts that reading its elements gives.\<close>

fun typed :: "row \<Rightarrow> bool" where
  "typed (BigInt64Array ws) = True"
| "typed (Array xs) = False"

fun row_values :: "row \<Rightarrow> int list" where
  "row_values (BigInt64Array ws) = map sint ws"
| "row_values (Array xs) = xs"

definition row_sum :: "row \<Rightarrow> int" where
  "row_sum r = sum_list (row_values r)"

text \<open>What reading an element gives back after \<open>v\<close> was stored in it.\<close>

definition stored :: "bool \<Rightarrow> int \<Rightarrow> int" where
  "stored t v = (if t then sint (word_of_int v :: 64 word) else v)"

text \<open>The sum of the products \<open>L[i] * R[j]\<close> that the loops add to element \<open>k\<close>.\<close>

definition conv_sum :: "int list \<Rightarrow> int list \<Rightarrow> nat list \<Rightarrow> nat list \<Rightarrow> nat \<Rightarrow> int" where
  "conv_sum L R is js k = (\<Sum>i\<leftarrow>is. \<Sum>j\<leftarrow>js. if i + j = k then L ! i * R ! j else 0)"

definition palindromic :: "row \<Rightarrow> bool" where
  "palindromic r = (\<forall>i<row_length r. row_get r i = row_get r (row_length r - 1 - i))"

text \<open>
  The invariant of a cache filled under one value \<open>d\<close> of \<open>die\<close>: every row has the
  length of its index, reads the same from both ends and is of the kind \<open>pascal\<close>
  allocates for its index. The zero-filled row that \<open>pascal\<close> stores before it
  recurses satisfies it as well.
\<close>

definition good :: "int \<Rightarrow> int \<Rightarrow> row \<Rightarrow> bool" where
  "good d k r \<longleftrightarrow>
     int (row_length r) = (d - 1) * k + 1 \<and> palindromic r \<and> (typed r \<longleftrightarrow> k < 27)"

definition cache_ok :: "int \<Rightarrow> binom_viz \<Rightarrow> bool" where
  "cache_ok d s \<longleftrightarrow> die s = d \<and> (\<forall>k r. triangle s k = Some r \<longrightarrow> good d k r)"

text \<open>No row is in the cache that the size guard would have refused.\<close>

definition guarded :: "binom_viz \<Rightarrow> bool" where
  "guarded s \<longleftrightarrow> (\<forall>k. triangle s k \<noteq> None \<longrightarrow> k = 1 \<or> k * die s \<le> 1000)"

section \<open>The functions of the normal distribution (the object Normal of src/roll\<phi>.js)\<close>

subsection \<open>Numbers\<close>

text \<open>
  A JavaScript number is an IEEE 754 double: \<open>NaN\<close>, the two infinities, or a finite
  value, which is a real number or the negative zero. The comparisons, the unary
  minus and \<open>Math.abs\<close> are exact and are defined here. The other operations round,
  and \<open>Math.exp\<close> is only approximated by the platform: they are taken from a record
  \<open>fpu\<close> of arbitrary functions, of which only one fact is fixed, that an operation
  on \<open>NaN\<close> gives \<open>NaN\<close>. A decimal literal of the source is \<open>fp_lit\<close> of its
  value (the nearest double); the integer literals are exact. What is proved of
  \<open>probit\<close> holds for every \<open>fpu\<close>; what is proved of the values of \<open>erfc\<close> and
  \<open>cdf\<close> assumes of it the facts of binary64 arithmetic collected in \<open>binary64\<close>.
\<close>

datatype number = NaN | NegInf | PosInf | NegZero | Num real

text \<open>The position of a number in the order; \<open>NaN\<close> has none.\<close>

fun rank :: "number \<Rightarrow> (int \<times> real) option" where
  "rank NaN = None"
| "rank NegInf = Some (-1, 0)"
| "rank PosInf = Some (1, 0)"
| "rank NegZero = Some (0, 0)"
| "rank (Num r) = Some (0, r)"

definition num_lt :: "number \<Rightarrow> number \<Rightarrow> bool" where
  "num_lt a b = (case (rank a, rank b) of
     (Some (c, x), Some (e, y)) \<Rightarrow> c < e \<or> (c = e \<and> x < y)
   | _ \<Rightarrow> False)"

definition num_eq :: "number \<Rightarrow> number \<Rightarrow> bool" where
  "num_eq a b = (case (rank a, rank b) of
     (Some (c, x), Some (e, y)) \<Rightarrow> c = e \<and> x = y
   | _ \<Rightarrow> False)"

definition num_gt :: "number \<Rightarrow> number \<Rightarrow> bool" where
  "num_gt a b = num_lt b a"

definition num_le :: "number \<Rightarrow> number \<Rightarrow> bool" where
  "num_le a b = (num_lt a b \<or> num_eq a b)"

definition num_ge :: "number \<Rightarrow> number \<Rightarrow> bool" where
  "num_ge a b = num_le b a"

fun num_neg :: "number \<Rightarrow> number" where
  "num_neg NaN = NaN"
| "num_neg NegInf = PosInf"
| "num_neg PosInf = NegInf"
| "num_neg NegZero = Num 0"
| "num_neg (Num r) = (if r = 0 then NegZero else Num (- r))"

fun Math_abs :: "number \<Rightarrow> number" where
  "Math_abs NaN = NaN"
| "Math_abs NegInf = PosInf"
| "Math_abs PosInf = PosInf"
| "Math_abs NegZero = Num 0"
| "Math_abs (Num r) = Num \<bar>r\<bar>"

record fpu =
  fp_add :: "number \<Rightarrow> number \<Rightarrow> number"
  fp_sub :: "number \<Rightarrow> number \<Rightarrow> number"
  fp_mul :: "number \<Rightarrow> number \<Rightarrow> number"
  fp_div :: "number \<Rightarrow> number \<Rightarrow> number"
  fp_exp :: "number \<Rightarrow> number"
  fp_sqrt :: "number \<Rightarrow> number"
  fp_lit :: "real \<Rightarrow> number"
  fp_SQRT2 :: number
  fp_PI :: number

definition num_add :: "fpu \<Rightarrow> number \<Rightarrow> number \<Rightarrow> number" where
  "num_add U a b = (if a = NaN \<or> b = NaN then NaN else fp_add U a b)"

definition num_sub :: "fpu \<Rightarrow> number \<Rightarrow> number \<Rightarrow> number" where
  "num_sub U a b = (if a = NaN \<or> b = NaN then NaN else fp_sub U a b)"

definition num_mul :: "fpu \<Rightarrow> number \<Rightarrow> number \<Rightarrow> number" where
  "num_mul U a b = (if a = NaN \<or> b = NaN then NaN else fp_mul U a b)"

definition num_div :: "fpu \<Rightarrow> number \<Rightarrow> number \<Rightarrow> number" where
  "num_div U a b = (if a = NaN \<or> b = NaN then NaN else fp_div U a b)"

definition Math_exp :: "fpu \<Rightarrow> number \<Rightarrow> number" where
  "Math_exp U a = (if a = NaN then NaN else fp_exp U a)"

definition Math_sqrt :: "fpu \<Rightarrow> number \<Rightarrow> number" where
  "Math_sqrt U a = (if a = NaN then NaN else fp_sqrt U a)"

subsection \<open>erfc, pdf, cdf\<close>

text \<open>The table \<open>as\<close> of \<open>erfc\<close>.\<close>

definition as :: "(real \<times> real \<times> real \<times> real) list" where
  "as =
    [(2.71078540045147805, 5.80755613130301624, 3.47954057099518960, 12.06166887286239555),
     (3.47469513777439592, 12.07402036406381411, 3.72068443960225092, 8.44319781003968454),
     (4.00561509202259545, 9.30596659485887898, 3.90225704029924078, 6.36161630953880464),
     (5.16722705817812584, 9.12661617673673262, 4.03296893109262491, 5.13578530585681539),
     (5.95908795446633271, 9.19435612886969243, 4.11240942957450885, 4.48640329523408675)]"

function erfc :: "fpu \<Rightarrow> number \<Rightarrow> number" where
  "erfc U x =
     (if num_lt x (Num 0) then num_sub U (Num 2) (erfc U (num_neg x))
      else if num_ge x (Num 30) then Num 0
      else fold
        (\<lambda>(a0, a1, a2, a3) res.
           num_mul U res
             (num_div U
               (num_add U (num_mul U (num_add U x (fp_lit U a0)) x) (fp_lit U a1))
               (num_add U (num_mul U (num_add U x (fp_lit U a2)) x) (fp_lit U a3))))
        as
        (num_div U
          (num_mul U (Math_exp U (num_mul U (num_neg x) x)) (fp_lit U 0.56418958354775629))
          (num_add U x (fp_lit U 2.06955023132914151))))"
  by pat_completeness auto
termination
proof (relation "measure (\<lambda>(U, x). if num_lt x (Num 0) then 1 else 0)")
  show "wf (measure (\<lambda>(U, x). if num_lt x (Num 0) then 1 else (0::nat)))" by simp
next
  fix U :: fpu and x :: number
  assume "num_lt x (Num 0)"
  then have "\<not> num_lt (num_neg x) (Num 0)"
    by (cases x) (auto simp: num_lt_def split: if_splits)
  with \<open>num_lt x (Num 0)\<close>
  show "((U, num_neg x), U, x) \<in> measure (\<lambda>(U, x). if num_lt x (Num 0) then 1 else 0)"
    by simp
qed

declare erfc.simps [simp del]

definition pdf :: "fpu \<Rightarrow> number \<Rightarrow> number" where
  "pdf U x = num_div U (Math_exp U (num_div U (num_mul U (num_neg x) x) (Num 2)))
                       (Math_sqrt U (num_mul U (Num 2) (fp_PI U)))"

definition cdf :: "fpu \<Rightarrow> number \<Rightarrow> number" where
  "cdf U x = num_div U (erfc U (num_div U (num_neg x) (fp_SQRT2 U))) (Num 2)"

subsection \<open>probit\<close>

definition tolerance :: "fpu \<Rightarrow> number" where
  "tolerance U = fp_lit U (23 / 10 ^ 17)"

text \<open>
  The Newton loop of \<open>probit\<close>, on its three variables \<open>x\<close>, \<open>fx\<close> and \<open>cnt\<close>;
  it returns them as they are when the loop is left.
\<close>

function newton :: "fpu \<Rightarrow> number \<Rightarrow> number \<times> number \<times> nat \<Rightarrow> number \<times> number \<times> nat" where
  "newton U y (x, fx, cnt) =
     (if num_gt (Math_abs fx) (tolerance U) \<and> cnt < 40 then
        (let x' = num_sub U x (num_div U fx (pdf U x));
             fx' = num_sub U (cdf U x') y
         in newton U y (x', fx', cnt + 1))
      else (x, fx, cnt))"
  by pat_completeness auto
termination
  by (relation "measure (\<lambda>(U, y, x, fx, cnt). 40 - cnt)") auto

declare newton.simps [simp del]

definition probit :: "fpu \<Rightarrow> number \<Rightarrow> error + number" where
  "probit U y =
     (if num_lt y (Num 0) \<or> num_gt y (Num 1) then Inl InvalidArgument
      else if num_eq y (Num 0) then Inr NegInf
      else if num_eq y (Num 1) then Inr PosInf
      else Inr (fst (newton U y (Num 0, num_sub U (cdf U (Num 0)) y, 0))))"

text \<open>The value of \<open>cnt\<close> when \<open>probit\<close> returns: the Newton steps it has made.\<close>

definition probit_steps :: "fpu \<Rightarrow> number \<Rightarrow> nat" where
  "probit_steps U y =
     (if num_lt y (Num 0) \<or> num_gt y (Num 1) then 0
      else if num_eq y (Num 0) then 0
      else if num_eq y (Num 1) then 0
      else snd (snd (newton U y (Num 0, num_sub U (cdf U (Num 0)) y, 0))))"

text \<open>
  An arithmetic without rounding, on which the theorems below are instantiated.
\<close>

fun fin :: "number \<Rightarrow> real" where
  "fin (Num r) = r"
| "fin _ = 0"

definition real_fpu :: fpu where
  "real_fpu =
     \<lparr>fp_add = (\<lambda>a b. Num (fin a + fin b)),
      fp_sub = (\<lambda>a b. Num (fin a - fin b)),
      fp_mul = (\<lambda>a b. Num (fin a * fin b)),
      fp_div = (\<lambda>a b. Num (fin a / fin b)),
      fp_exp = (\<lambda>a. Num (exp (fin a))),
      fp_sqrt = (\<lambda>a. Num (sqrt (fin a))),
      fp_lit = Num,
      fp_SQRT2 = Num (sqrt 2),
      fp_PI = Num pi\<rparr>"

subsection \<open>Binary64 arithmetic\<close>

text \<open>
  What IEEE 754 and ECMAScript fix about the operations that \<open>fpu\<close> leaves open, for
  results below \<open>2^53\<close> in magnitude. A number is finite when it is a real or the
  negative zero.
\<close>

fun is_fin :: "number \<Rightarrow> bool" where
  "is_fin (Num r) = True"
| "is_fin NegZero = True"
| "is_fin _ = False"

text \<open>The nearest integer, the even one of two that are equally near.\<close>

definition rne :: "real \<Rightarrow> int" where
  "rne y =
     (if y - of_int \<lfloor>y\<rfloor> < 1 / 2 then \<lfloor>y\<rfloor>
      else if 1 / 2 < y - of_int \<lfloor>y\<rfloor> then \<lfloor>y\<rfloor> + 1
      else if even \<lfloor>y\<rfloor> then \<lfloor>y\<rfloor> else \<lfloor>y\<rfloor> + 1)"

text \<open>
  A real \<open>z\<close> is at scale \<open>k\<close> when \<open>|z| * 2^k\<close> lies in \<open>[2^52, 2^53)\<close>: the
  doubles around it are the multiples of \<open>2^-k\<close>, and \<open>round_at k z\<close> is the nearest
  of them, ties to the even significand. The scales up to 1074 are those of the
  normal doubles; below \<open>tiny\<close>, the least positive normal double, results are
  subnormal.
\<close>

definition round_at :: "nat \<Rightarrow> real \<Rightarrow> real" where
  "round_at k z = of_int (rne (z * 2 ^ k)) / 2 ^ k"

definition is_scale :: "nat \<Rightarrow> real \<Rightarrow> bool" where
  "is_scale k z \<longleftrightarrow> 2 ^ 52 \<le> \<bar>z\<bar> * 2 ^ k \<and> \<bar>z\<bar> * 2 ^ k < 2 ^ 53"

definition tiny :: real where
  "tiny = 1 / 2 ^ 1022"

text \<open>
  \<open>rounded z c\<close>: the number \<open>c\<close> is what a correctly rounded operation returns
  when its exact result is \<open>z\<close>. A zero result is a zero of either sign, a result of
  normal size is rounded to nearest, a smaller one keeps its sign and does not
  exceed \<open>tiny\<close>.
\<close>

definition rounded :: "real \<Rightarrow> number \<Rightarrow> bool" where
  "rounded z c \<longleftrightarrow>
     (\<bar>z\<bar> < 2 ^ 53 \<longrightarrow> is_fin c)
     \<and> (z = 0 \<longrightarrow> fin c = 0)
     \<and> (\<forall>k\<le>1074. is_scale k z \<longrightarrow> c = Num (round_at k z))
     \<and> (\<bar>z\<bar> < tiny \<longrightarrow> \<bar>fin c\<bar> \<le> tiny \<and> (0 \<le> z \<longrightarrow> 0 \<le> fin c) \<and> (z \<le> 0 \<longrightarrow> fin c \<le> 0))"

text \<open>
  \<open>binary64 U\<close>: on finite operands the four operations of \<open>U\<close> and its decimal
  literals are correctly rounded (IEEE 754, round to nearest, ties to even);
  \<open>Math.exp\<close> of a zero is 1, as ECMAScript requires, and of a number that is not
  positive lies between 0 and 2; \<open>Math.SQRT2\<close> is finite and positive, and an
  infinity divided by it is that infinity.
\<close>

definition binary64 :: "fpu \<Rightarrow> bool" where
  "binary64 U \<longleftrightarrow>
     (\<forall>a b. is_fin a \<and> is_fin b \<longrightarrow> rounded (fin a + fin b) (fp_add U a b))
     \<and> (\<forall>a b. is_fin a \<and> is_fin b \<longrightarrow> rounded (fin a - fin b) (fp_sub U a b))
     \<and> (\<forall>a b. is_fin a \<and> is_fin b \<longrightarrow> rounded (fin a * fin b) (fp_mul U a b))
     \<and> (\<forall>a b. is_fin a \<and> is_fin b \<and> fin b \<noteq> 0 \<longrightarrow> rounded (fin a / fin b) (fp_div U a b))
     \<and> (\<forall>r. rounded r (fp_lit U r))
     \<and> (\<forall>a. is_fin a \<and> fin a = 0 \<longrightarrow> fp_exp U a = Num 1)
     \<and> (\<forall>a. is_fin a \<and> fin a \<le> 0 \<longrightarrow>
           is_fin (fp_exp U a) \<and> 0 \<le> fin (fp_exp U a) \<and> fin (fp_exp U a) \<le> 2)
     \<and> is_fin (fp_SQRT2 U) \<and> 0 < fin (fp_SQRT2 U)
     \<and> fp_div U PosInf (fp_SQRT2 U) = PosInf
     \<and> fp_div U NegInf (fp_SQRT2 U) = NegInf"

text \<open>
  An arithmetic that satisfies \<open>binary64\<close>: every result is rounded to the nearest
  double of its scale, without overflow; \<open>Math.exp\<close> is left exact. The theorems
  that assume \<open>binary64\<close> are instantiated on it.
\<close>

definition nearest :: "real \<Rightarrow> real" where
  "nearest z =
     (if \<bar>z\<bar> < tiny then round_at 1074 z
      else round_at (LEAST k. 2 ^ 52 \<le> \<bar>z\<bar> * 2 ^ k) z)"

definition b64_fpu :: fpu where
  "b64_fpu =
     \<lparr>fp_add = (\<lambda>a b. Num (nearest (fin a + fin b))),
      fp_sub = (\<lambda>a b. Num (nearest (fin a - fin b))),
      fp_mul = (\<lambda>a b. Num (nearest (fin a * fin b))),
      fp_div = (\<lambda>a b. if a = PosInf \<or> a = NegInf then a else Num (nearest (fin a / fin b))),
      fp_exp = (\<lambda>a. Num (exp (fin a))),
      fp_sqrt = (\<lambda>a. Num (nearest (sqrt (fin a)))),
      fp_lit = (\<lambda>r. Num (nearest r)),
      fp_SQRT2 = Num (6369051672525773 / 4503599627370496),
      fp_PI = Num (884279719003555 / 281474976710656)\<rparr>"

section \<open>Properties of the coefficient engine\<close>

subsection \<open>The convolution loops add the convolution sums\<close>

lemma shr1_small: "0 \<le> n \<Longrightarrow> n \<le> 1000 \<Longrightarrow> shr1 n = n div 2"
proof -
  assume a: "0 \<le> n" "n \<le> 1000"
  have "sint (word_of_int n :: 32 word) = n"
    using a by (simp add: sint_sbintrunc' signed_take_bit_int_eq_self)
  then show ?thesis by (simp add: shr1_def)
qed

lemma die_nonzero: "die s \<noteq> 0"
  by (simp add: die_def split: option.splits)

lemma length_row_values [simp]: "length (row_values r) = row_length r"
  by (cases r) simp_all

lemma row_get_values:
  "row_get r k = (if k < row_length r then Some (row_values r ! k) else None)"
  by (cases r) simp_all

lemma stored_values: "k < row_length r \<Longrightarrow> stored (typed r) (row_values r ! k) = row_values r ! k"
  by (cases r) (simp_all add: stored_def)

lemma stored_add: "stored t (stored t a + b) = stored t (a + b)"
  by (simp add: stored_def)

lemma add_at_Some:
  assumes "k < row_length acc"
  shows "\<exists>acc'. add_at acc k v = Some acc' \<and> row_length acc' = row_length acc
           \<and> typed acc' = typed acc
           \<and> (\<forall>m < row_length acc. row_values acc' ! m =
                 (if m = k then stored (typed acc) (row_values acc ! k + v)
                  else row_values acc ! m))"
  using assms by (cases acc) (auto simp: stored_def nth_list_update)

lemma loop_j_sum:
  assumes "i < row_length left"
    and "\<forall>j \<in> set js. j < row_length right \<and> i + j < row_length acc"
  shows "\<exists>acc'. loop_j left right i js acc = (None, acc')
           \<and> row_length acc' = row_length acc \<and> typed acc' = typed acc
           \<and> (\<forall>k < row_length acc. row_values acc' ! k =
                 stored (typed acc) (row_values acc ! k +
                   (\<Sum>j\<leftarrow>js. if i + j = k then row_values left ! i * row_values right ! j else 0)))"
  using assms(2)
proof (induction js arbitrary: acc)
  case Nil
  then show ?case by (simp add: stored_values)
next
  case (Cons j js)
  from Cons.prems have j: "j < row_length right" "i + j < row_length acc" by simp_all
  let ?v = "row_values left ! i * row_values right ! j"
  obtain acc1 where a1: "add_at acc (i + j) ?v = Some acc1"
    "row_length acc1 = row_length acc" "typed acc1 = typed acc"
    "\<forall>m < row_length acc. row_values acc1 ! m =
       (if m = i + j then stored (typed acc) (row_values acc ! (i + j) + ?v)
        else row_values acc ! m)"
    using add_at_Some [OF j(2), of ?v] by blast
  have "\<forall>j \<in> set js. j < row_length right \<and> i + j < row_length acc1"
    using Cons.prems a1(2) by simp
  from Cons.IH [OF this] obtain acc' where a2:
    "loop_j left right i js acc1 = (None, acc')"
    "row_length acc' = row_length acc1" "typed acc' = typed acc1"
    "\<forall>k < row_length acc1. row_values acc' ! k =
       stored (typed acc1) (row_values acc1 ! k +
         (\<Sum>j\<leftarrow>js. if i + j = k then row_values left ! i * row_values right ! j else 0))"
    by blast
  have step: "loop_j left right i (j # js) acc = (None, acc')"
    using assms(1) j a1(1) a2(1) by (simp add: row_get_values)
  have vals: "row_values acc' ! k =
      stored (typed acc) (row_values acc ! k +
        (\<Sum>j\<leftarrow>j # js. if i + j = k then row_values left ! i * row_values right ! j else 0))"
    if k: "k < row_length acc" for k
  proof (cases "k = i + j")
    case True
    then show ?thesis
      using a2(4) a1(2,3,4) k by (simp add: stored_add add.assoc)
  next
    case False
    then show ?thesis
      using a2(4) a1(2,3,4) k by auto
  qed
  show ?case using step a2(2,3) a1(2,3) vals by simp
qed


lemma conv_sum_Nil [simp]: "conv_sum L R [] js k = 0"
  by (simp add: conv_sum_def)

lemma conv_sum_Cons:
  "conv_sum L R (i # is) js k =
     (\<Sum>j\<leftarrow>js. if i + j = k then L ! i * R ! j else 0) + conv_sum L R is js k"
  by (simp add: conv_sum_def)

lemma loop_i_sum:
  assumes "\<forall>i \<in> set is. i < row_length left \<and> i + row_length right \<le> row_length acc"
  shows "\<exists>acc'. loop_i left right is acc = (None, acc')
           \<and> row_length acc' = row_length acc \<and> typed acc' = typed acc
           \<and> (\<forall>k < row_length acc. row_values acc' ! k =
                 stored (typed acc) (row_values acc ! k +
                   conv_sum (row_values left) (row_values right) is [0..<row_length right] k))"
  using assms
proof (induction "is" arbitrary: acc)
  case Nil
  then show ?case by (simp add: stored_values)
next
  case (Cons i "is")
  from Cons.prems have i: "i < row_length left" "i + row_length right \<le> row_length acc"
    by simp_all
  have "\<forall>j \<in> set [0..<row_length right]. j < row_length right \<and> i + j < row_length acc"
    using i(2) by auto
  from loop_j_sum [OF i(1) this] obtain acc1 where a1:
    "loop_j left right i [0..<row_length right] acc = (None, acc1)"
    "row_length acc1 = row_length acc" "typed acc1 = typed acc"
    "\<forall>k < row_length acc. row_values acc1 ! k =
       stored (typed acc) (row_values acc ! k +
         (\<Sum>j\<leftarrow>[0..<row_length right].
            if i + j = k then row_values left ! i * row_values right ! j else 0))"
    by blast
  have "\<forall>i \<in> set is. i < row_length left \<and> i + row_length right \<le> row_length acc1"
    using Cons.prems a1(2) by simp
  from Cons.IH [OF this] obtain acc' where a2:
    "loop_i left right is acc1 = (None, acc')"
    "row_length acc' = row_length acc1" "typed acc' = typed acc1"
    "\<forall>k < row_length acc1. row_values acc' ! k =
       stored (typed acc1) (row_values acc1 ! k +
         conv_sum (row_values left) (row_values right) is [0..<row_length right] k)"
    by blast
  have step: "loop_i left right (i # is) acc = (None, acc')"
    using a1(1) a2(1) by simp
  have vals: "row_values acc' ! k =
      stored (typed acc) (row_values acc ! k +
        conv_sum (row_values left) (row_values right) (i # is) [0..<row_length right] k)"
    if k: "k < row_length acc" for k
    using a2(4) a1(2,3,4) k by (simp add: stored_add conv_sum_Cons add.assoc)
  show ?case using step a2(2,3) a1(2,3) vals by simp
qed

lemma convolve_sum:
  assumes "row_length left + row_length right \<le> row_length acc + 1"
    and "0 < row_length right"
  shows "\<exists>acc'. convolve acc left right = (None, acc')
           \<and> row_length acc' = row_length acc \<and> typed acc' = typed acc
           \<and> (\<forall>k < row_length acc. row_values acc' ! k =
                 stored (typed acc) (row_values acc ! k +
                   conv_sum (row_values left) (row_values right)
                     [0..<row_length left] [0..<row_length right] k))"
proof -
  have "\<forall>i \<in> set [0..<row_length left].
          i < row_length left \<and> i + row_length right \<le> row_length acc"
    using assms by auto
  from loop_i_sum [OF this] show ?thesis by (simp add: convolve_def)
qed

lemma conv_sum_set:
  "conv_sum L R [0..<a] [0..<b] k = (\<Sum>i<a. \<Sum>j<b. if i + j = k then L ! i * R ! j else 0)"
  by (simp add: conv_sum_def interv_sum_list_conv_sum_set_nat atLeast0LessThan)

lemma conv_sum_palindrome:
  assumes L: "\<forall>i<a. L ! (a - 1 - i) = L ! i"
    and R: "\<forall>j<b. R ! (b - 1 - j) = R ! j"
    and k: "k + 2 \<le> a + b"
  shows "conv_sum L R [0..<a] [0..<b] (a + b - 2 - k) = conv_sum L R [0..<a] [0..<b] k"
proof -
  let ?f = "\<lambda>m i j. if i + j = m then L ! i * R ! j else (0::int)"
  have "(\<Sum>i<a. \<Sum>j<b. ?f (a + b - 2 - k) i j)
      = (\<Sum>i<a. \<Sum>j<b. ?f (a + b - 2 - k) (a - Suc i) j)"
    by (rule sum.nat_diff_reindex [symmetric])
  also have "\<dots> = (\<Sum>i<a. \<Sum>j<b. ?f (a + b - 2 - k) (a - Suc i) (b - Suc j))"
    by (intro sum.cong refl sum.nat_diff_reindex [symmetric])
  also have "\<dots> = (\<Sum>i<a. \<Sum>j<b. ?f k i j)"
  proof (intro sum.cong refl)
    fix i j assume "i \<in> {..<a}" "j \<in> {..<b}"
    then have ij: "i < a" "j < b" by simp_all
    have "(a - Suc i) + (b - Suc j) = a + b - 2 - k \<longleftrightarrow> i + j = k"
      using ij k by linarith
    moreover have "L ! (a - Suc i) = L ! i" "R ! (b - Suc j) = R ! j"
      using L R ij by simp_all
    ultimately show "?f (a + b - 2 - k) (a - Suc i) (b - Suc j) = ?f k i j"
      by simp
  qed
  finally show ?thesis by (simp add: conv_sum_set)
qed


lemma palindromic_values:
  "palindromic r \<longleftrightarrow> (\<forall>i<row_length r. row_values r ! (row_length r - 1 - i) = row_values r ! i)"
proof -
  have "(row_get r i = row_get r (row_length r - 1 - i))
      \<longleftrightarrow> (row_values r ! (row_length r - 1 - i) = row_values r ! i)"
    if "i < row_length r" for i
  proof -
    have "row_length r - 1 - i < row_length r" using that by linarith
    then show ?thesis using that by (auto simp: row_get_values)
  qed
  then show ?thesis unfolding palindromic_def by blast
qed

lemma convolve_good:
  assumes d: "1 \<le> d" and a: "1 \<le> a" and b: "1 \<le> b"
    and left: "good d a left" and right: "good d b right" and acc: "good d (a + b) acc"
  shows "\<exists>acc'. convolve acc left right = (None, acc') \<and> good d (a + b) acc'"
proof -
  let ?la = "row_length left" and ?lb = "row_length right" and ?n = "row_length acc"
  have la: "int ?la = (d - 1) * a + 1" and lb: "int ?lb = (d - 1) * b + 1"
    and n: "int ?n = (d - 1) * (a + b) + 1"
    using left right acc by (simp_all add: good_def)
  have "int ?la + int ?lb = int ?n + 1"
    unfolding la lb n by (simp add: algebra_simps)
  then have fit: "?la + ?lb = ?n + 1" by linarith
  have "0 \<le> (d - 1) * b" using d b by simp
  then have pos: "0 < ?lb" using lb by linarith
  have "0 \<le> (d - 1) * a" using d a by simp
  then have posa: "0 < ?la" using la by linarith
  from convolve_sum [of left right acc] fit pos obtain acc' where c:
    "convolve acc left right = (None, acc')" "row_length acc' = ?n" "typed acc' = typed acc"
    "\<forall>k < ?n. row_values acc' ! k =
       stored (typed acc) (row_values acc ! k +
         conv_sum (row_values left) (row_values right) [0..<?la] [0..<?lb] k)"
    by auto
  have pl: "\<forall>i<?la. row_values left ! (?la - 1 - i) = row_values left ! i"
    and pr: "\<forall>j<?lb. row_values right ! (?lb - 1 - j) = row_values right ! j"
    and pa: "\<forall>k<?n. row_values acc ! (?n - 1 - k) = row_values acc ! k"
    using left right acc by (simp_all add: good_def palindromic_values)
  have "row_values acc' ! (?n - 1 - k) = row_values acc' ! k" if k: "k < ?n" for k
  proof -
    have k2: "k + 2 \<le> ?la + ?lb" using k fit by linarith
    have idx: "?n - 1 - k = ?la + ?lb - 2 - k" using fit by linarith
    have "conv_sum (row_values left) (row_values right) [0..<?la] [0..<?lb] (?n - 1 - k)
        = conv_sum (row_values left) (row_values right) [0..<?la] [0..<?lb] k"
      unfolding idx by (rule conv_sum_palindrome [OF pl pr k2])
    moreover have "?n - 1 - k < ?n" using k by linarith
    ultimately show ?thesis using c(4) pa k by simp
  qed
  then have "palindromic acc'"
    using c(2) by (simp add: palindromic_values)
  then show ?thesis using c(1,2,3) n acc by (simp add: good_def)
qed


lemma good_ones: "1 \<le> d \<Longrightarrow> good d 1 (BigInt64Array (replicate (nat d) 1))"
  by (simp add: good_def palindromic_values)

lemma good_alloc:
  assumes "1 \<le> d" "1 \<le> n"
  shows "\<exists>z. alloc n ((d - 1) * n + 1) = Inr z \<and> good d n z"
proof -
  have "0 \<le> (d - 1) * n" using assms by simp
  then show ?thesis
    by (simp add: alloc_def good_def palindromic_values)
qed



lemma cache_ok_upd:
  "cache_ok d s \<Longrightarrow> good d n r \<Longrightarrow> cache_ok d (s\<lparr>triangle := (triangle s)(n \<mapsto> r)\<rparr>)"
  by (simp add: cache_ok_def die_def)

lemma half_bounds:
  assumes "2 \<le> n" "n * d \<le> 1000" "1 \<le> d"
  shows "shr1 n = n div 2" "1 \<le> n div 2" "1 \<le> n - n div 2"
    "n div 2 * d \<le> 1000" "(n - n div 2) * d \<le> 1000"
proof -
  have "n * 1 \<le> n * d" using assms by (intro mult_left_mono) auto
  then have "n \<le> 1000" using assms(2) by linarith
  then show "shr1 n = n div 2" using assms(1) by (simp add: shr1_small)
  show "1 \<le> n div 2" "1 \<le> n - n div 2" using assms(1) by linarith+
  have "n div 2 * d \<le> n * d" "(n - n div 2) * d \<le> n * d"
    using assms by (intro mult_right_mono; linarith)+
  then show "n div 2 * d \<le> 1000" "(n - n div 2) * d \<le> 1000"
    using assms(2) by linarith+
qed

lemma pascal_invalid: "n < 1 \<Longrightarrow> pascal n s = (Inl InvalidArgument, s)"
  by (subst pascal.simps) simp

lemma pascal_cached: "1 \<le> n \<Longrightarrow> triangle s n = Some r \<Longrightarrow> pascal n s = (Inr r, s)"
  by (subst pascal.simps) simp

lemma pascal_base:
  "triangle s 1 = None \<Longrightarrow>
     pascal 1 s = (Inr (BigInt64Array (replicate (nat (die s)) 1)),
       s\<lparr>triangle := (triangle s)(1 \<mapsto> BigInt64Array (replicate (nat (die s)) 1))\<rparr>)"
  by (subst pascal.simps) (simp add: Let_def)

lemma pascal_too_large:
  "2 \<le> n \<Longrightarrow> triangle s n = None \<Longrightarrow> 1000 < n * die s \<Longrightarrow>
     pascal n s = (Inl ComputationTooLarge, s)"
  by (subst pascal.simps) simp

lemma pascal_ok:
  assumes d: "1 \<le> d"
  shows "cache_ok d s \<Longrightarrow>
     cache_ok d (snd (pascal n s))
     \<and> (\<forall>k. triangle s k \<noteq> None \<longrightarrow> triangle (snd (pascal n s)) k \<noteq> None)
     \<and> (1 \<le> n \<and> (n = 1 \<or> n * d \<le> 1000) \<longrightarrow> (\<exists>r. fst (pascal n s) = Inr r \<and> good d n r))"
proof (induction n s rule: pascal.induct)
  case (1 n s)
  note ok = \<open>cache_ok d s\<close>
  then have die: "die s = d" by (simp add: cache_ok_def)
  show ?case
  proof (cases "n < 1")
    case True
    then show ?thesis using ok by (simp add: pascal_invalid)
  next
    case n1: False
    show ?thesis
    proof (cases "triangle s n")
      case (Some r)
      then have "pascal n s = (Inr r, s)"
        using n1 by (simp add: pascal_cached)
      moreover have "good d n r" using ok Some by (simp add: cache_ok_def)
      ultimately show ?thesis using ok by simp
    next
      case None
      show ?thesis
      proof (cases "n = 1")
        case True
        let ?r = "BigInt64Array (replicate (nat d) 1)"
        have "pascal n s = (Inr ?r, s\<lparr>triangle := (triangle s)(n \<mapsto> ?r)\<rparr>)"
          using None True die pascal_base [of s] by simp
        moreover have "good d n ?r" using True d by (simp add: good_ones)
        ultimately show ?thesis using ok by (simp add: cache_ok_upd)
      next
        case nn1: False
        show ?thesis
        proof (cases "1000 < n * die s")
          case True
          then have "pascal n s = (Inl ComputationTooLarge, s)"
            using n1 None nn1 by (simp add: pascal_too_large)
          then show ?thesis using ok True nn1 die by simp
        next
          case le: False
          have n2: "2 \<le> n" using n1 nn1 by linarith
          have nd: "n * d \<le> 1000" using le die by simp
          note hb = half_bounds [OF n2 nd d]
          obtain z where z: "alloc n ((die s - 1) * n + 1) = Inr z" "good d n z"
            using good_alloc [of d n] d n2 die by auto
          let ?s1 = "s\<lparr>triangle := (triangle s)(n \<mapsto> z)\<rparr>"
          have ok1: "cache_ok d ?s1" using ok z(2) by (rule cache_ok_upd)
          obtain x s2 where p1: "pascal (shr1 n) ?s1 = (x, s2)" by force
          from "1.IH"(1) [OF n1 None nn1 le z(1) ok1] p1 hb
          obtain left where l: "x = Inr left" "good d (n div 2) left"
            and ok2: "cache_ok d s2" and dom2: "triangle s2 n \<noteq> None"
            and mono2: "\<forall>k. triangle s k \<noteq> None \<longrightarrow> triangle s2 k \<noteq> None"
            by auto
          obtain y s3 where p2: "pascal (n - shr1 n) s2 = (y, s3)" by force
          from "1.IH"(2) [OF n1 None nn1 le z(1) p1 [symmetric] l(1) ok2] p2 hb
          obtain right where r: "y = Inr right" "good d (n - n div 2) right"
            and ok3: "cache_ok d s3"
            and mono3: "\<forall>k. triangle s2 k \<noteq> None \<longrightarrow> triangle s3 k \<noteq> None"
            by auto
          obtain acc where acc: "triangle s3 n = Some acc"
            using dom2 mono3 by auto
          then have "good d n acc" using ok3 by (simp add: cache_ok_def)
          then have "good d (n div 2 + (n - n div 2)) acc" by simp
          from convolve_good [OF d hb(2) hb(3) l(2) r(2) this]
          obtain acc' where c: "convolve acc left right = (None, acc')" "good d n acc'"
            by auto
          have "pascal n s = (Inr acc', s3\<lparr>triangle := (triangle s3)(n \<mapsto> acc')\<rparr>)"
            using n1 None nn1 le z(1) p1 l(1) p2 r(1) acc c(1)
            by (simp add: pascal.simps [of n s])
          then show ?thesis
            using c(2) ok3 mono2 mono3 by (auto simp: cache_ok_upd)
        qed
      qed
    qed
  qed
qed


subsection \<open>Rows of a widget whose die is never changed\<close>

lemma cache_ok_new: "d \<noteq> 0 \<Longrightarrow> cache_ok d (new_binom_viz (Some d))"
  by (simp add: cache_ok_def new_binom_viz_def die_def)

lemma cache_ok_calls:
  "1 \<le> d \<Longrightarrow> cache_ok d s \<Longrightarrow> cache_ok d (pascal_calls ks s)"
  by (induction ks arbitrary: s) (simp_all add: pascal_ok)

text \<open>The examples of the specification: Pascal's triangle for two faces, two six-sided dice.\<close>

lemma pascal_example_die2: "fst (pascal 4 (new_binom_viz (Some 2))) = Inr (BigInt64Array [1, 4, 6, 4, 1])"
  by code_simp

lemma pascal_example_die6:
  "fst (pascal 2 (new_binom_viz (Some 6))) = Inr (BigInt64Array [1, 2, 3, 4, 5, 6, 5, 4, 3, 2, 1])"
  by code_simp

lemma coefficients_examples:
  "coefficients 2 4 = [1, 4, 6, 4, 1]"
  "coefficients 6 2 = [1, 2, 3, 4, 5, 6, 5, 4, 3, 2, 1]"
  by code_simp+

lemma cache_ok_new_any: "cache_ok (die (new_binom_viz a)) (new_binom_viz a)"
  by (simp add: cache_ok_def new_binom_viz_def)

text \<open>
  Claim C5, as the source has it. On a widget whose \<open>die\<close> is what the attribute
  gave at construction (a value \<open>a\<close> of the attribute, or none), \<open>die = d\<close> with
  \<open>d \<ge> 2\<close>, whatever calls of \<open>pascal\<close> came before: for \<open>n \<ge> 1\<close> with
  \<open>n * d \<le> 1000\<close>, \<open>pascal(n)\<close> returns a row of length \<open>(d - 1) * n + 1\<close> whose
  element \<open>i\<close> equals its element \<open>length - 1 - i\<close>, for every index \<open>i\<close> of the row.
\<close>

theorem row_length_palindrome:
  assumes "die (new_binom_viz a) = d" "2 \<le> d" "1 \<le> n" "n * d \<le> 1000"
  shows "\<exists>r s'. pascal n (pascal_calls ks (new_binom_viz a)) = (Inr r, s')
           \<and> int (row_length r) = (d - 1) * n + 1
           \<and> (\<forall>i<row_length r. row_get r i = row_get r (row_length r - 1 - i))"
proof -
  let ?s = "pascal_calls ks (new_binom_viz a)"
  have d: "1 \<le> d" using assms(2) by simp
  have "cache_ok d (new_binom_viz a)"
    using cache_ok_new_any [of a] assms(1) by simp
  then have "cache_ok d ?s"
    using d by (intro cache_ok_calls)
  from pascal_ok [OF d this, of n] assms(3,4)
  obtain r where r: "fst (pascal n ?s) = Inr r" "good d n r" by auto
  then have "pascal n ?s = (Inr r, snd (pascal n ?s))"
    by (metis prod.collapse)
  then show ?thesis using r(2) by (auto simp: good_def palindromic_def)
qed

theorem row_length_palindrome_witness:
  "die (new_binom_viz (Some 6)) = 6 \<and> (2::int) \<le> 6 \<and> (1::int) \<le> 2 \<and> (2::int) * 6 \<le> 1000
   \<and> (\<exists>r s'. pascal 2 (pascal_calls [3, 1] (new_binom_viz (Some 6))) = (Inr r, s')
           \<and> row_length r = 11 \<and> row_get r 0 = row_get r 10)"
proof -
  have d: "die (new_binom_viz (Some 6)) = 6"
    by (simp add: die_def new_binom_viz_def)
  have "\<exists>r s'. pascal 2 (pascal_calls [3, 1] (new_binom_viz (Some 6))) = (Inr r, s')
           \<and> int (row_length r) = (6 - 1) * 2 + 1
           \<and> (\<forall>i<row_length r. row_get r i = row_get r (row_length r - 1 - i))"
    by (rule row_length_palindrome [OF d]) simp_all
  then obtain r s' where r: "pascal 2 (pascal_calls [3, 1] (new_binom_viz (Some 6))) = (Inr r, s')"
    and l: "int (row_length r) = (6 - 1) * 2 + 1"
    and p: "\<forall>i<row_length r. row_get r i = row_get r (row_length r - 1 - i)"
    by blast
  from l have len: "row_length r = 11" by simp
  have "0 < row_length r \<longrightarrow> row_get r 0 = row_get r (row_length r - 1 - 0)"
    using p by (rule spec)
  then have "row_get r 0 = row_get r 10"
    unfolding len by simp
  with r len have "\<exists>r s'. pascal 2 (pascal_calls [3, 1] (new_binom_viz (Some 6))) = (Inr r, s')
           \<and> row_length r = 11 \<and> row_get r 0 = row_get r 10"
    by blast
  moreover have "(2::int) \<le> 6 \<and> (1::int) \<le> 2 \<and> (2::int) * 6 \<le> 1000" by simp
  ultimately show ?thesis using d by blast
qed

text \<open>
  Claim C5 as stated fails once \<open>die\<close> has changed: row 1 is computed with two
  faces, \<open>die\<close> is set to 3, and \<open>pascal(3)\<close>, with \<open>n * die = 9\<close>, builds its row
  of length 7 from the cached \<open>[1, 1]\<close>: it returns \<open>[1, 3, 3, 1, 0, 0, 0]\<close>, whose
  first and last elements differ.
\<close>

theorem stale_row_counterexample:
  "die (set_die (Some 3) (snd (pascal 1 (new_binom_viz (Some 2))))) = 3
   \<and> fst (pascal 3 (set_die (Some 3) (snd (pascal 1 (new_binom_viz (Some 2))))))
       = Inr (BigInt64Array [1, 3, 3, 1, 0, 0, 0])
   \<and> row_get (BigInt64Array [1, 3, 3, 1, 0, 0, 0]) 0 = Some 1
   \<and> row_get (BigInt64Array [1, 3, 3, 1, 0, 0, 0]) (7 - 1 - 0) = Some 0"
  by code_simp

subsection \<open>Changing die\<close>

text \<open>
  Claim C3, as the source has it. Nothing but the constructor assigns \<open>triangle\<close>, and
  \<open>die\<close> is not an observed attribute: setting it leaves the cache as it is, and a
  call \<open>pascal(n)\<close> for an index \<open>n \<ge> 1\<close> that is in the cache returns the cached
  row, computed under the former value, and leaves the widget unchanged.
\<close>

theorem cached_row_survives_die_change:
  assumes "1 \<le> n" "triangle s n = Some r"
  shows "triangle (set_die a s) = triangle s
       \<and> pascal n (set_die a s) = (Inr r, set_die a s)"
  using assms by (simp add: set_die_def pascal_cached)

theorem cached_row_survives_die_change_witness:
  "(1::int) \<le> 2
   \<and> triangle (snd (pascal 2 (new_binom_viz (Some 2)))) 2 = Some (BigInt64Array [1, 2, 1])
   \<and> triangle (set_die (Some 3) (snd (pascal 2 (new_binom_viz (Some 2)))))
       = triangle (snd (pascal 2 (new_binom_viz (Some 2))))
   \<and> pascal 2 (set_die (Some 3) (snd (pascal 2 (new_binom_viz (Some 2)))))
       = (Inr (BigInt64Array [1, 2, 1]), set_die (Some 3) (snd (pascal 2 (new_binom_viz (Some 2)))))"
proof -
  have h: "triangle (snd (pascal 2 (new_binom_viz (Some 2)))) 2 = Some (BigInt64Array [1, 2, 1])"
    by code_simp
  show ?thesis
    using h cached_row_survives_die_change [OF _ h, of "Some 3"] by simp
qed

text \<open>
  Claim C3 as stated fails: row 2 is computed with two faces, \<open>die\<close> is set to 3, and
  \<open>pascal(2)\<close> still returns \<open>[1, 2, 1]\<close>, where a widget with three faces from the
  start returns \<open>[1, 2, 3, 2, 1]\<close>.
\<close>

theorem die_change_counterexample:
  "fst (pascal 2 (set_die (Some 3) (snd (pascal 2 (new_binom_viz (Some 2))))))
     = Inr (BigInt64Array [1, 2, 1])
   \<and> fst (pascal 2 (new_binom_viz (Some 3))) = Inr (BigInt64Array [1, 2, 3, 2, 1])"
  by code_simp

subsection \<open>The two errors\<close>

lemma guarded_upd:
  "guarded s \<Longrightarrow> n = 1 \<or> n * die s \<le> 1000 \<Longrightarrow>
     guarded (s\<lparr>triangle := (triangle s)(n \<mapsto> r)\<rparr>)"
  by (simp add: guarded_def die_def)

lemma die_upd [simp]: "die (s\<lparr>triangle := t\<rparr>) = die s"
  by (simp add: die_def)

lemma pascal_guarded:
  "guarded s \<Longrightarrow> guarded (snd (pascal n s)) \<and> die (snd (pascal n s)) = die s"
proof (induction n s rule: pascal.induct)
  case (1 n s)
  note g = \<open>guarded s\<close>
  show ?case
  proof (cases "n < 1")
    case True
    then show ?thesis using g by (simp add: pascal_invalid)
  next
    case n1: False
    show ?thesis
    proof (cases "triangle s n")
      case (Some r)
      then show ?thesis using g n1 by (simp add: pascal_cached)
    next
      case None
      show ?thesis
      proof (cases "n = 1")
        case True
        then show ?thesis
          using g None pascal_base [of s] by (simp add: guarded_upd)
      next
        case nn1: False
        show ?thesis
        proof (cases "1000 < n * die s")
          case True
          then show ?thesis using g n1 nn1 None by (simp add: pascal_too_large)
        next
          case le: False
          show ?thesis
          proof (cases "alloc n ((die s - 1) * n + 1)")
            case (Inl e)
            then have "pascal n s = (Inl e, s)"
              using n1 None nn1 le by (subst pascal.simps) simp
            then show ?thesis using g by simp
          next
            case (Inr z)
            let ?s1 = "s\<lparr>triangle := (triangle s)(n \<mapsto> z)\<rparr>"
            have g1: "guarded ?s1" using g le by (intro guarded_upd) auto
            obtain x s2 where p1: "pascal (shr1 n) ?s1 = (x, s2)" by force
            from "1.IH"(1) [OF n1 None nn1 le Inr g1] p1
            have g2: "guarded s2" and d2: "die s2 = die s" by simp_all
            show ?thesis
            proof (cases x)
              case (Inl e)
              then have "pascal n s = (Inl e, s2)"
                using n1 None nn1 le Inr p1 by (subst pascal.simps) simp
              then show ?thesis using g2 d2 by simp
            next
              case l: (Inr left)
              obtain y s3 where p2: "pascal (n - shr1 n) s2 = (y, s3)" by force
              from "1.IH"(2) [OF n1 None nn1 le Inr p1 [symmetric] l g2] p2
              have g3: "guarded s3" and d3: "die s3 = die s" using d2 by simp_all
              have g4: "guarded (s3\<lparr>triangle := (triangle s3)(n \<mapsto> r)\<rparr>)" for r
                using g3 le d3 by (intro guarded_upd) auto
              have "pascal n s =
                  (case y of
                     Inl e \<Rightarrow> (Inl e, s3)
                   | Inr right \<Rightarrow>
                       (case triangle s3 n of
                          None \<Rightarrow> (Inl TypeError, s3)
                        | Some acc \<Rightarrow>
                            (case convolve acc left right of
                               (Some e, acc') \<Rightarrow>
                                 (Inl e, s3\<lparr>triangle := (triangle s3)(n \<mapsto> acc')\<rparr>)
                             | (None, acc') \<Rightarrow>
                                 (Inr acc', s3\<lparr>triangle := (triangle s3)(n \<mapsto> acc')\<rparr>))))"
                using n1 None nn1 le Inr p1 l p2 by (subst pascal.simps) simp
              then have "snd (pascal n s) = s3 \<or>
                  (\<exists>r. snd (pascal n s) = s3\<lparr>triangle := (triangle s3)(n \<mapsto> r)\<rparr>)"
                by (auto split: sum.splits option.splits prod.splits)
              then show ?thesis using g3 g4 d3 by auto
            qed
          qed
        qed
      qed
    qed
  qed
qed

lemma guarded_new: "guarded (new_binom_viz a)"
  by (simp add: guarded_def new_binom_viz_def)

lemma guarded_calls: "guarded s \<Longrightarrow> guarded (pascal_calls ks s)"
  by (induction ks arbitrary: s) (simp_all add: pascal_guarded)

text \<open>
  Claim C4, as the source has it. On a widget whose \<open>die\<close> attribute was set at
  construction, after any calls of \<open>pascal\<close>: \<open>pascal(n)\<close> throws the
  \<open>InvalidArgument\<close> error whenever \<open>n < 1\<close>, and the \<open>ComputationTooLarge\<close> error
  whenever \<open>n \<ge> 2\<close> and \<open>n * die > 1000\<close>; either way the widget is left as it was.
  The case \<open>n = 1\<close> is decided before the size guard and is not covered.
\<close>

theorem pascal_errors:
  assumes "s = pascal_calls ks (new_binom_viz a)"
  shows "(n < 1 \<longrightarrow> pascal n s = (Inl InvalidArgument, s))
       \<and> (2 \<le> n \<and> 1000 < n * die s \<longrightarrow> pascal n s = (Inl ComputationTooLarge, s))"
proof -
  have g: "guarded s" unfolding assms by (intro guarded_calls guarded_new)
  have "pascal n s = (Inl ComputationTooLarge, s)" if n: "2 \<le> n" "1000 < n * die s"
  proof -
    have "triangle s n = None"
      using g n by (auto simp: guarded_def)
    then show ?thesis using n by (simp add: pascal_too_large)
  qed
  then show ?thesis by (simp add: pascal_invalid)
qed

theorem pascal_errors_witness:
  "(0::int) < 1
   \<and> pascal 0 (pascal_calls [2, 3] (new_binom_viz (Some 2)))
        = (Inl InvalidArgument, pascal_calls [2, 3] (new_binom_viz (Some 2)))
   \<and> (2::int) \<le> 1001 \<and> 1000 < 1001 * die (pascal_calls [2, 3] (new_binom_viz (Some 2)))
   \<and> pascal 1001 (pascal_calls [2, 3] (new_binom_viz (Some 2)))
        = (Inl ComputationTooLarge, pascal_calls [2, 3] (new_binom_viz (Some 2)))"
proof -
  let ?s = "pascal_calls [2, 3] (new_binom_viz (Some 2))"
  have d: "die ?s = 2" by code_simp
  show ?thesis
    using pascal_errors [of ?s "[2, 3]" "Some 2" 0] pascal_errors [of ?s "[2, 3]" "Some 2" 1001] d
    by simp
qed

text \<open>
  Claim C4 as stated fails at \<open>n = 1\<close>, \<open>die = 1001\<close>: \<open>n * die > 1000\<close>, and
  \<open>pascal(1)\<close> returns the row of 1001 ones and caches it.
\<close>

theorem base_row_counterexample:
  "1000 < 1 * die (new_binom_viz (Some 1001))
   \<and> pascal 1 (new_binom_viz (Some 1001))
       = (Inr (BigInt64Array (replicate 1001 1)),
          (new_binom_viz (Some 1001))\<lparr>triangle := [1 \<mapsto> BigInt64Array (replicate 1001 1)]\<rparr>)"
proof -
  have d: "die (new_binom_viz (Some 1001)) = 1001"
    by (simp add: die_def new_binom_viz_def)
  have t: "triangle (new_binom_viz (Some 1001)) 1 = None"
    by (simp add: new_binom_viz_def)
  show ?thesis
    using pascal_base [OF t] d by (simp add: new_binom_viz_def)
qed

text \<open>For \<open>n = 1\<close> the size guard is never reached: \<open>pascal(1)\<close> returns a row in every state.\<close>

lemma pascal_one_returns: "\<exists>r s'. pascal 1 s = (Inr r, s')"
proof (cases "triangle s 1")
  case None
  then show ?thesis using pascal_base [of s] by blast
next
  case (Some r)
  then have "pascal 1 s = (Inr r, s)" by (intro pascal_cached) simp_all
  then show ?thesis by blast
qed

subsection \<open>Rows that do not fit 64 bits\<close>

text \<open>The exact coefficients of the specification: their number and their sum.\<close>

lemma sum_list_padd: "sum_list (padd xs ys) = sum_list xs + sum_list ys"
  by (induction xs ys rule: padd.induct) simp_all

lemma sum_list_scale: "sum_list (map ((*) x) ys) = x * sum_list (ys :: int list)"
  by (induction ys) (simp_all add: algebra_simps)

lemma sum_list_pmul: "sum_list (pmul xs ys) = sum_list xs * sum_list ys"
  by (induction xs) (simp_all add: sum_list_padd sum_list_scale algebra_simps)

lemma sum_list_ppow: "sum_list (ppow p n) = sum_list p ^ n"
  by (induction n) (simp_all add: sum_list_pmul)

lemma sum_list_coefficients: "sum_list (coefficients d n) = int d ^ n"
  by (simp add: coefficients_def sum_list_ppow sum_list_replicate)

lemma length_padd: "length (padd xs ys) = max (length xs) (length ys)"
  by (induction xs ys rule: padd.induct) simp_all

lemma length_pmul: "ys \<noteq> [] \<Longrightarrow> xs \<noteq> [] \<Longrightarrow> length (pmul xs ys) = length xs + length ys - 1"
proof (induction xs)
  case Nil
  then show ?case by simp
next
  case (Cons x xs)
  obtain y ys' where ys: "ys = y # ys'"
    using Cons.prems by (cases ys) auto
  show ?case
  proof (cases xs)
    case Nil
    then show ?thesis by (simp add: ys length_padd)
  next
    case xs: (Cons x' xs')
    then have "length (pmul xs ys) = length xs + length ys - 1"
      using Cons.IH Cons.prems by simp
    then show ?thesis by (simp add: ys length_padd xs)
  qed
qed

lemma length_ppow: "p \<noteq> [] \<Longrightarrow> length (ppow p n) = (length p - 1) * n + 1 \<and> ppow p n \<noteq> []"
proof (induction n)
  case 0
  then show ?case by simp
next
  case (Suc n)
  then have ih: "length (ppow p n) = (length p - 1) * n + 1" "ppow p n \<noteq> []" by simp_all
  have len: "length (pmul p (ppow p n)) = length p + length (ppow p n) - 1"
    using ih(2) Suc.prems by (rule length_pmul)
  obtain m where m: "length p = Suc m"
    using Suc.prems by (cases p) auto
  have "length (pmul p (ppow p n)) = (length p - 1) * Suc n + 1"
    unfolding len ih(1) m by simp
  moreover from this have "pmul p (ppow p n) \<noteq> []" by auto
  ultimately show ?case by simp
qed

lemma length_coefficients: "0 < d \<Longrightarrow> length (coefficients d n) = (d - 1) * n + 1"
  using length_ppow [of "replicate d 1" n] by (auto simp: coefficients_def)

text \<open>
  A \<open>BigInt64Array\<close> holds no element above \<open>2^63 - 1\<close>, so the elements of a row of
  this kind cannot sum to more than its length times that. Rows below index 27 are of
  this kind for every \<open>die\<close>; with seven faces, row 26 has 157 elements.
\<close>

lemma sum_list_le: "(\<And>x. x \<in> set xs \<Longrightarrow> x \<le> c) \<Longrightarrow> sum_list xs \<le> int (length xs) * (c :: int)"
  by (induction xs) (auto simp: algebra_simps add_mono)

lemma typed_values_bound:
  assumes "typed r"
  shows "row_sum r \<le> int (row_length r) * (2 ^ 63 - 1)"
proof -
  obtain ws where r: "r = BigInt64Array ws" using assms by (cases r) auto
  have "x \<le> 2 ^ 63 - 1" if "x \<in> set (row_values r)" for x
  proof -
    from that r obtain w :: "64 word" where "x = sint w" by auto
    moreover have "sint w < 2 ^ (LENGTH(64) - 1)" by (rule sint_lt)
    ultimately show ?thesis by simp
  qed
  from sum_list_le [of "row_values r", OF this] show ?thesis
    by (simp add: row_sum_def)
qed

lemma pascal_die7_n26:
  "\<exists>r s'. pascal 26 (new_binom_viz (Some 7)) = (Inr r, s') \<and> row_length r = 157
     \<and> row_sum r \<le> 157 * (2 ^ 63 - 1)"
proof -
  let ?s = "new_binom_viz (Some 7)"
  have "cache_ok 7 ?s" by (intro cache_ok_new) simp
  from pascal_ok [OF _ this, of 26]
  obtain r where r: "fst (pascal 26 ?s) = Inr r" "good 7 26 r" by auto
  have len: "row_length r = 157" and t: "typed r"
    using r(2) by (simp_all add: good_def)
  have "pascal 26 ?s = (Inr r, snd (pascal 26 ?s))"
    using r(1) by (metis prod.collapse)
  then show ?thesis using len typed_values_bound [OF t] by auto
qed

text \<open>
  Claim C1 fails on the source at \<open>die = 7\<close>, \<open>n = 26\<close>, where \<open>n * die = 182\<close>: the
  row returned has as many elements as \<open>(1 + x + \<dots> + x^6)^26\<close> has coefficients, and
  at least one of them is not the exact coefficient.
\<close>

theorem pascal_entry_wraps:
  "\<exists>r s'. pascal 26 (new_binom_viz (Some 7)) = (Inr r, s')
     \<and> row_length r = length (coefficients 7 26)
     \<and> (\<exists>k<row_length r. row_get r k \<noteq> Some (coefficients 7 26 ! k))"
proof -
  from pascal_die7_n26 obtain r s' where
    r: "pascal 26 (new_binom_viz (Some 7)) = (Inr r, s')" "row_length r = 157"
      "row_sum r \<le> 157 * (2 ^ 63 - 1)"
    by blast
  have len: "length (coefficients 7 26) = 157"
    by (simp add: length_coefficients)
  have "(157::int) * (2 ^ 63 - 1) < 7 ^ 26" by simp
  then have "sum_list (row_values r) \<noteq> sum_list (coefficients 7 26)"
    using r(3) by (simp add: sum_list_coefficients row_sum_def)
  then have "row_values r \<noteq> coefficients 7 26" by auto
  then obtain k where k: "k < row_length r" "row_values r ! k \<noteq> coefficients 7 26 ! k"
    using len r(2) by (auto simp: list_eq_iff_nth_eq)
  then have "row_get r k \<noteq> Some (coefficients 7 26 ! k)"
    by (simp add: row_get_values)
  then show ?thesis using r(1,2) len k(1) by auto
qed

text \<open>
  Claim C2 fails on the source at the same input: the elements of the row returned sum
  to less than \<open>7^26\<close>.
\<close>

theorem pascal_sum_wraps:
  "\<exists>r s'. pascal 26 (new_binom_viz (Some 7)) = (Inr r, s') \<and> row_sum r < 7 ^ 26"
proof -
  from pascal_die7_n26 obtain r s' where
    r: "pascal 26 (new_binom_viz (Some 7)) = (Inr r, s')" "row_sum r \<le> 157 * (2 ^ 63 - 1)"
    by blast
  have "(157::int) * (2 ^ 63 - 1) < 7 ^ 26" by simp
  then show ?thesis using r by force
qed

section \<open>Properties of probit and erfc\<close>

subsection \<open>The Newton loop\<close>

lemma num_le_not_gt: "num_le a b \<Longrightarrow> \<not> num_gt a b"
  by (auto simp: num_le_def num_gt_def num_lt_def num_eq_def split: option.splits)

lemma newton_stop:
  "\<not> num_gt (Math_abs fx) (tolerance U) \<Longrightarrow> newton U y (x, fx, cnt) = (x, fx, cnt)"
  by (subst newton.simps) simp

lemma newton_count:
  "cnt \<le> 40 \<Longrightarrow> snd (snd (newton U y (x, fx, cnt))) \<le> 40"
proof (induction U y "(x, fx, cnt)" arbitrary: x fx cnt rule: newton.induct)
  case (1 U y x fx cnt)
  show ?case
  proof (cases "num_gt (Math_abs fx) (tolerance U) \<and> cnt < 40")
    case True
    then show ?thesis
      using "1.hyps" [OF True refl refl] by (subst newton.simps) (simp add: Let_def)
  next
    case False
    then show ?thesis using "1.prems" by (subst newton.simps) auto
  qed
qed

lemma newton_exit:
  assumes "fx = num_sub U (cdf U x) y" "newton U y (x, fx, cnt) = (x', fx', cnt')"
  shows "fx' = num_sub U (cdf U x') y
       \<and> (cnt' < 40 \<longrightarrow> \<not> num_gt (Math_abs fx') (tolerance U))"
  using assms
proof (induction U y "(x, fx, cnt)" arbitrary: x fx cnt rule: newton.induct)
  case (1 U y x fx cnt)
  show ?case
  proof (cases "num_gt (Math_abs fx) (tolerance U) \<and> cnt < 40")
    case True
    let ?x = "num_sub U x (num_div U fx (pdf U x))"
    have "newton U y (?x, num_sub U (cdf U ?x) y, cnt + 1) = (x', fx', cnt')"
      using "1.prems"(2) True by (subst (asm) newton.simps) (simp add: Let_def)
    from "1.hyps" [OF True refl refl refl this] show ?thesis .
  next
    case False
    then have "(x', fx', cnt') = (x, fx, cnt)"
      using "1.prems"(2) by (subst (asm) newton.simps) auto
    then show ?thesis using False "1.prems"(1) by auto
  qed
qed

lemma probit_inside:
  assumes "num_lt (Num 0) y" "num_lt y (Num 1)"
  shows "\<not> num_lt y (Num 0)" "\<not> num_gt y (Num 1)" "\<not> num_eq y (Num 0)" "\<not> num_eq y (Num 1)"
  using assms
  by (cases y; simp add: num_lt_def num_gt_def num_eq_def)+

text \<open>
  Claim C6. For \<open>0 < y < 1\<close>, whatever the arithmetic: \<open>probit(y)\<close> returns a number
  after at most 40 Newton steps; when it has made fewer than 40, the test
  \<open>|cdf(x) - y| > 2.3e-16\<close> is false at the value \<open>x\<close> returned; and the loop makes no
  further step from any state in which \<open>|fx| \<le> 2.3e-16\<close>. \<open>newton\<close> is a total
  function, its termination proved on \<open>40 - cnt\<close>.
\<close>

theorem probit_terminates:
  assumes "num_lt (Num 0) y" "num_lt y (Num 1)"
  shows "\<exists>x. probit U y = Inr x
           \<and> probit_steps U y \<le> 40
           \<and> (probit_steps U y < 40 \<longrightarrow>
                \<not> num_gt (Math_abs (num_sub U (cdf U x) y)) (tolerance U))
           \<and> (\<forall>x fx cnt. num_le (Math_abs fx) (tolerance U) \<longrightarrow>
                newton U y (x, fx, cnt) = (x, fx, cnt))"
proof -
  note inside = probit_inside [OF assms]
  let ?fx = "num_sub U (cdf U (Num 0)) y"
  obtain x fx cnt where n: "newton U y (Num 0, ?fx, 0) = (x, fx, cnt)"
    by (cases "newton U y (Num 0, ?fx, 0)") auto
  have p: "probit U y = Inr x" and s: "probit_steps U y = cnt"
    using inside n by (simp_all add: probit_def probit_steps_def)
  have c: "cnt \<le> 40"
    using newton_count [of 0 U y "Num 0" ?fx] n by simp
  from newton_exit [OF refl n]
  have e: "cnt < 40 \<longrightarrow> \<not> num_gt (Math_abs (num_sub U (cdf U x) y)) (tolerance U)"
    by auto
  show ?thesis
    using p s c e by (auto simp: newton_stop num_le_not_gt)
qed

theorem probit_terminates_witness:
  "num_lt (Num 0) (Num (1/2)) \<and> num_lt (Num (1/2)) (Num 1)
   \<and> (\<exists>x. probit real_fpu (Num (1/2)) = Inr x)
   \<and> probit_steps real_fpu (Num (1/2)) \<le> 40"
proof -
  have h: "num_lt (Num 0) (Num (1/2))" "num_lt (Num (1/2)) (Num 1)"
    by (simp_all add: num_lt_def)
  show ?thesis
    using h probit_terminates [OF h, of real_fpu] by blast
qed

subsection \<open>The domain of probit\<close>

text \<open>
  Claim C7. \<open>probit(y)\<close> throws the \<open>InvalidArgument\<close> error if \<open>y < 0\<close> or
  \<open>y > 1\<close>; it returns \<open>-Infinity\<close> if \<open>y == 0\<close> and \<open>Infinity\<close> if \<open>y == 1\<close>,
  in both cases without a Newton step.
\<close>

theorem probit_domain:
  "(num_lt y (Num 0) \<or> num_gt y (Num 1) \<longrightarrow> probit U y = Inl InvalidArgument)
   \<and> (num_eq y (Num 0) \<longrightarrow> probit U y = Inr NegInf \<and> probit_steps U y = 0)
   \<and> (num_eq y (Num 1) \<longrightarrow> probit U y = Inr PosInf \<and> probit_steps U y = 0)"
  by (cases y; simp add: probit_def probit_steps_def num_lt_def num_gt_def num_eq_def)

theorem probit_domain_witness:
  "num_lt (Num (- (1/10))) (Num 0) \<and> probit real_fpu (Num (- (1/10))) = Inl InvalidArgument
   \<and> num_gt (Num (11/10)) (Num 1) \<and> probit real_fpu (Num (11/10)) = Inl InvalidArgument
   \<and> num_eq (Num 0) (Num 0) \<and> probit real_fpu (Num 0) = Inr NegInf
   \<and> probit_steps real_fpu (Num 0) = 0
   \<and> num_eq NegZero (Num 0) \<and> probit real_fpu NegZero = Inr NegInf
   \<and> num_eq (Num 1) (Num 1) \<and> probit real_fpu (Num 1) = Inr PosInf
   \<and> probit_steps real_fpu (Num 1) = 0"
proof -
  have h: "num_lt (Num (- (1/10))) (Num 0)" "num_gt (Num (11/10)) (Num 1)"
    "num_eq (Num 0) (Num 0)" "num_eq NegZero (Num 0)" "num_eq (Num 1) (Num 1)"
    by (simp_all add: num_lt_def num_gt_def num_eq_def)
  show ?thesis
    using h probit_domain [of "Num (- (1/10))" real_fpu] probit_domain [of "Num (11/10)" real_fpu]
      probit_domain [of "Num 0" real_fpu] probit_domain [of NegZero real_fpu]
      probit_domain [of "Num 1" real_fpu]
    by blast
qed

text \<open>
  Claim C10. For \<open>NaN\<close> the domain test \<open>y < 0 || y > 1\<close> and the loop guard
  \<open>|cdf(0) - y| > 2.3e-16\<close> are both false: \<open>probit(NaN)\<close> throws nothing, makes no
  Newton step and returns 0.
\<close>

theorem probit_NaN:
  "\<not> (num_lt NaN (Num 0) \<or> num_gt NaN (Num 1))
   \<and> \<not> num_gt (Math_abs (num_sub U (cdf U (Num 0)) NaN)) (tolerance U)
   \<and> probit U NaN = Inr (Num 0)
   \<and> probit_steps U NaN = 0"
proof -
  have fx: "num_sub U (cdf U (Num 0)) NaN = NaN" by (simp add: num_sub_def)
  have g: "\<not> num_gt (Math_abs NaN) (tolerance U)"
    by (simp add: num_gt_def num_lt_def split: option.splits)
  have "newton U NaN (Num 0, NaN, 0) = (Num 0, NaN, 0)"
    using g by (rule newton_stop)
  then show ?thesis
    using g by (simp add: probit_def probit_steps_def fx num_lt_def num_gt_def num_eq_def)
qed

theorem probit_NaN_witness:
  "probit real_fpu NaN = Inr (Num 0) \<and> probit_steps real_fpu NaN = 0"
  using probit_NaN [of real_fpu] by simp

subsection \<open>The two branches of erfc that do not compute\<close>

lemma erfc_reflects:
  "num_lt x (Num 0) \<Longrightarrow> erfc U x = num_sub U (Num 2) (erfc U (num_neg x))"
  by (subst erfc.simps) simp

lemma erfc_saturates: "num_ge x (Num 30) \<Longrightarrow> erfc U x = Num 0"
proof -
  assume a: "num_ge x (Num 30)"
  then have "\<not> num_lt x (Num 0)"
    by (cases x) (auto simp: num_ge_def num_le_def num_lt_def num_eq_def)
  with a show ?thesis by (subst erfc.simps) simp
qed

subsection \<open>Binary64: evaluating an operation\<close>

text \<open>
  From \<open>binary64 U\<close>, the result of an operation whose exact value and scale are
  known is obtained by computing \<open>round_at\<close>.
\<close>

lemma is_fin_not_NaN [simp]: "is_fin a \<Longrightarrow> a \<noteq> NaN"
  by (cases a) simp_all

lemma rounded_add:
  "binary64 U \<Longrightarrow> is_fin a \<Longrightarrow> is_fin b \<Longrightarrow> rounded (fin a + fin b) (num_add U a b)"
  by (simp add: binary64_def num_add_def)

lemma rounded_sub:
  "binary64 U \<Longrightarrow> is_fin a \<Longrightarrow> is_fin b \<Longrightarrow> rounded (fin a - fin b) (num_sub U a b)"
  by (simp add: binary64_def num_sub_def)

lemma rounded_mul:
  "binary64 U \<Longrightarrow> is_fin a \<Longrightarrow> is_fin b \<Longrightarrow> rounded (fin a * fin b) (num_mul U a b)"
  by (simp add: binary64_def num_mul_def)

lemma rounded_div:
  "binary64 U \<Longrightarrow> is_fin a \<Longrightarrow> is_fin b \<Longrightarrow> fin b \<noteq> 0 \<Longrightarrow>
     rounded (fin a / fin b) (num_div U a b)"
  by (simp add: binary64_def num_div_def)

lemma rounded_lit: "binary64 U \<Longrightarrow> rounded r (fp_lit U r)"
  by (simp add: binary64_def)

lemma rounded_val:
  "rounded z c \<Longrightarrow> k \<le> 1074 \<Longrightarrow> is_scale k z \<Longrightarrow> round_at k z = v \<Longrightarrow> c = Num v"
  by (auto simp: rounded_def)

lemma rounded_zero: "rounded 0 c \<Longrightarrow> is_fin c \<and> fin c = 0"
  by (simp add: rounded_def)

lemma exp_zero: "binary64 U \<Longrightarrow> is_fin a \<Longrightarrow> fin a = 0 \<Longrightarrow> Math_exp U a = Num 1"
  by (simp add: binary64_def Math_exp_def)

lemma neg_zero: "is_fin x \<Longrightarrow> fin x = 0 \<Longrightarrow> is_fin (num_neg x) \<and> fin (num_neg x) = 0"
  by (cases x) auto

lemma lit_val:
  "binary64 U \<Longrightarrow> k \<le> 1074 \<Longrightarrow> is_scale k r \<Longrightarrow> round_at k r = v \<Longrightarrow> fp_lit U r = Num v"
  using rounded_lit rounded_val by blast

lemma zero_add_val:
  assumes "binary64 U" "is_fin x" "fin x = 0" "k \<le> 1074" "is_scale k v" "round_at k v = v"
  shows "num_add U x (Num v) = Num v"
proof -
  have "rounded (fin x + fin (Num v)) (num_add U x (Num v))"
    using assms(1,2) by (intro rounded_add) simp_all
  then have "rounded v (num_add U x (Num v))" using assms(3) by simp
  then show ?thesis using assms(4,5,6) by (rule rounded_val)
qed

lemma poly_at_zero:
  assumes U: "binary64 U" and x: "is_fin x" "fin x = 0"
    and a: "fp_lit U a = Num A" "ka \<le> 1074" "is_scale ka A" "round_at ka A = A"
    and b: "fp_lit U b = Num B" "kb \<le> 1074" "is_scale kb B" "round_at kb B = B"
  shows "num_add U (num_mul U (num_add U x (fp_lit U a)) x) (fp_lit U b) = Num B"
proof -
  have p: "num_add U x (fp_lit U a) = Num A"
    unfolding a(1) using U x a(2,3,4) by (rule zero_add_val)
  have "rounded (fin (Num A) * fin x) (num_mul U (Num A) x)"
    using U x(1) by (intro rounded_mul) simp_all
  then have "rounded 0 (num_mul U (Num A) x)" using x(2) by simp
  then have q: "is_fin (num_mul U (Num A) x)" "fin (num_mul U (Num A) x) = 0"
    using rounded_zero by blast+
  show ?thesis
    unfolding p b(1) using U q b(2,3,4) by (rule zero_add_val)
qed

lemma div_val:
  assumes "binary64 U" "d \<noteq> 0" "k \<le> 1074" "is_scale k (n / d)" "round_at k (n / d) = v"
  shows "num_div U (Num n) (Num d) = Num v"
proof -
  have "rounded (fin (Num n) / fin (Num d)) (num_div U (Num n) (Num d))"
    using assms(1,2) by (intro rounded_div) simp_all
  then have "rounded (n / d) (num_div U (Num n) (Num d))" by simp
  then show ?thesis using assms(3,4,5) by (rule rounded_val)
qed

lemma mul_val:
  assumes "binary64 U" "k \<le> 1074" "is_scale k (a * b)" "round_at k (a * b) = v"
  shows "num_mul U (Num a) (Num b) = Num v"
proof -
  have "rounded (fin (Num a) * fin (Num b)) (num_mul U (Num a) (Num b))"
    using assms(1) by (intro rounded_mul) simp_all
  then have "rounded (a * b) (num_mul U (Num a) (Num b))" by simp
  then show ?thesis using assms(2,3,4) by (rule rounded_val)
qed


subsection \<open>The arithmetic that rounds to nearest is binary64\<close>

lemma rne_bounds: "\<lfloor>y\<rfloor> \<le> rne y" "rne y \<le> \<lfloor>y\<rfloor> + 1"
  by (simp_all add: rne_def)

lemma rne_of_int [simp]: "rne (of_int n) = n"
  by (simp add: rne_def)

lemma rne_nonneg: "0 \<le> y \<Longrightarrow> 0 \<le> rne y"
  using rne_bounds(1) [of y] by (simp add: order_trans [of 0 "\<lfloor>y\<rfloor>"])

lemma rne_le: "y \<le> of_int n \<Longrightarrow> rne y \<le> n"
proof (cases "y = of_int n")
  case True
  then show ?thesis by simp
next
  case False
  assume "y \<le> of_int n"
  with False have "y < of_int n" by simp
  then have "\<lfloor>y\<rfloor> < n" by (simp add: floor_less_iff)
  then show ?thesis using rne_bounds(2) [of y] by linarith
qed

lemma rne_ge: "of_int n \<le> y \<Longrightarrow> n \<le> rne y"
proof -
  assume "of_int n \<le> y"
  then have "n \<le> \<lfloor>y\<rfloor>" by (simp add: le_floor_iff)
  then show ?thesis using rne_bounds(1) [of y] by linarith
qed

lemma rne_nonpos: "y \<le> 0 \<Longrightarrow> rne y \<le> 0"
  using rne_le [of y 0] by simp

lemma rne_error: "\<bar>of_int (rne y) - y\<bar> \<le> 1 / 2"
proof -
  have "of_int \<lfloor>y\<rfloor> \<le> y" "y < of_int \<lfloor>y\<rfloor> + 1" by linarith+
  then show ?thesis by (auto simp: rne_def abs_le_iff)
qed

lemma scale_unique:
  assumes "is_scale k z"
  shows "(LEAST j. 2 ^ 52 \<le> \<bar>z\<bar> * 2 ^ j) = k"
proof (rule Least_equality)
  show "2 ^ 52 \<le> \<bar>z\<bar> * 2 ^ k" using assms by (simp add: is_scale_def)
next
  fix j assume j: "2 ^ 52 \<le> \<bar>z\<bar> * 2 ^ j"
  show "k \<le> j"
  proof (rule ccontr)
    assume "\<not> k \<le> j"
    then have "Suc j \<le> k" by simp
    then have "(2::real) ^ Suc j \<le> 2 ^ k" by (intro power_increasing) simp_all
    then have "\<bar>z\<bar> * 2 ^ Suc j \<le> \<bar>z\<bar> * 2 ^ k" by (intro mult_left_mono) simp_all
    moreover have "\<bar>z\<bar> * 2 ^ k < 2 ^ 53" using assms by (simp add: is_scale_def)
    ultimately have "\<bar>z\<bar> * 2 ^ j * 2 < 2 ^ 53" by simp
    then show False using j by simp
  qed
qed

lemma scale_not_tiny:
  assumes "is_scale k z" "k \<le> 1074"
  shows "\<not> \<bar>z\<bar> < tiny"
proof
  assume t: "\<bar>z\<bar> < tiny"
  have "(2::real) ^ k \<le> 2 ^ 1074" using assms(2) by (intro power_increasing) simp_all
  then have "\<bar>z\<bar> * 2 ^ k \<le> \<bar>z\<bar> * 2 ^ 1074" by (intro mult_left_mono) simp_all
  also have "\<dots> < tiny * 2 ^ 1074" using t by (intro mult_strict_right_mono) simp_all
  also have "\<dots> = 2 ^ 52" by (simp add: tiny_def)
  finally show False using assms(1) by (simp add: is_scale_def)
qed

lemma rounded_nearest: "rounded z (Num (nearest z))"
proof -
  have "rne 0 = 0" using rne_of_int [of 0] by simp
  then have zero: "nearest 0 = 0"
    by (simp add: nearest_def tiny_def round_at_def)
  have normal: "nearest z = round_at k z" if "k \<le> 1074" "is_scale k z" for k
    using scale_not_tiny [OF that(2,1)] scale_unique [OF that(2)] by (simp add: nearest_def)
  have sub: "\<bar>nearest z\<bar> \<le> tiny \<and> (0 \<le> z \<longrightarrow> 0 \<le> nearest z) \<and> (z \<le> 0 \<longrightarrow> nearest z \<le> 0)"
    if t: "\<bar>z\<bar> < tiny"
  proof -
    let ?y = "z * 2 ^ 1074"
    have n: "nearest z = of_int (rne ?y) / 2 ^ 1074"
      using t by (simp add: nearest_def round_at_def)
    have "\<bar>?y\<bar> = \<bar>z\<bar> * 2 ^ 1074" by (simp add: abs_mult)
    also have "\<dots> < tiny * 2 ^ 1074" using t by (intro mult_strict_right_mono) simp_all
    also have "\<dots> = 2 ^ 52" by (simp add: tiny_def)
    finally have y: "?y \<le> of_int (2 ^ 52)" "of_int (- (2 ^ 52)) \<le> ?y" by simp_all
    have "rne ?y \<le> 2 ^ 52" "- (2 ^ 52) \<le> rne ?y"
      using rne_le [OF y(1)] rne_ge [OF y(2)] by simp_all
    then have "\<bar>rne ?y\<bar> \<le> 2 ^ 52" by simp
    then have "\<bar>(of_int (rne ?y)::real)\<bar> \<le> 2 ^ 52"
      by (metis of_int_abs of_int_le_iff of_int_numeral of_int_power)
    then have "\<bar>(of_int (rne ?y)::real)\<bar> / 2 ^ 1074 \<le> 2 ^ 52 / 2 ^ 1074"
      by (intro divide_right_mono) simp_all
    then have a: "\<bar>nearest z\<bar> \<le> tiny" by (simp add: n tiny_def)
    have b: "0 \<le> nearest z" if "0 \<le> z"
    proof -
      have "0 \<le> ?y" using that by simp
      then have "0 \<le> rne ?y" by (rule rne_nonneg)
      then show ?thesis by (simp add: n)
    qed
    have c: "nearest z \<le> 0" if "z \<le> 0"
    proof -
      have "?y \<le> 0" using that by (simp add: mult_le_0_iff)
      then have "rne ?y \<le> 0" by (rule rne_nonpos)
      then show ?thesis by (simp add: n divide_le_0_iff)
    qed
    show ?thesis using a b c by blast
  qed
  show ?thesis
    unfolding rounded_def using zero normal sub by auto
qed

lemma binary64_b64: "binary64 b64_fpu"
proof -
  have e: "0 \<le> exp r \<and> exp r \<le> 2" if "r \<le> 0" for r :: real
  proof -
    have "exp r \<le> 1" using that by simp
    moreover have "0 \<le> exp r" by simp
    ultimately show ?thesis by linarith
  qed
  show ?thesis
    unfolding binary64_def b64_fpu_def
    using e by (auto simp: rounded_nearest)
qed

subsection \<open>erfc at zero\<close>

text \<open>
  At a zero every product with \<open>x\<close> vanishes and \<open>Math.exp\<close> gives 1: \<open>erfc\<close> is
  the rounded quotient of its two leading constants times the five rounded quotients
  \<open>a[1] / a[3]\<close>, each product rounded. Computed step by step it is \<open>1 - 2^-52\<close>.
\<close>

lemma zero_tests:
  assumes "is_fin x" "fin x = 0"
  shows "\<not> num_lt x (Num 0)" "\<not> num_ge x (Num 30)"
  using assms by (cases x; simp add: num_lt_def num_ge_def num_le_def num_eq_def)+

lemma erfc_zero:
  assumes U: "binary64 U" and x: "is_fin x" "fin x = 0"
  shows "erfc U x = Num (4503599627370495 / 4503599627370496)"
proof -
  have nx: "is_fin (num_neg x)" "fin (num_neg x) = 0"
    using neg_zero x by blast+
  have "rounded (fin (num_neg x) * fin x) (num_mul U (num_neg x) x)"
    using U nx(1) x(1) by (intro rounded_mul)
  then have "rounded 0 (num_mul U (num_neg x) x)" using x(2) by simp
  then have m: "is_fin (num_mul U (num_neg x) x)" "fin (num_mul U (num_neg x) x) = 0"
    using rounded_zero by blast+
  have e: "Math_exp U (num_mul U (num_neg x) x) = Num 1"
    using U m by (rule exp_zero)
  have c0: "fp_lit U 0.56418958354775629 = Num (5081767996463981 / 9007199254740992)"
    using U by (intro lit_val [where k = 53]) (simp_all add: is_scale_def round_at_def rne_def)
  have c0d: "is_scale 53 (5081767996463981 / 9007199254740992)" "round_at 53 (5081767996463981 / 9007199254740992) = 5081767996463981 / 9007199254740992"
    by (simp_all add: is_scale_def round_at_def rne_def)
  have c1: "fp_lit U 2.06955023132914151 = Num (4660212825319223 / 2251799813685248)"
    using U by (intro lit_val [where k = 51]) (simp_all add: is_scale_def round_at_def rne_def)
  have c1d: "is_scale 51 (4660212825319223 / 2251799813685248)" "round_at 51 (4660212825319223 / 2251799813685248) = 4660212825319223 / 2251799813685248"
    by (simp_all add: is_scale_def round_at_def rne_def)
  have r0: "num_div U (Num (5081767996463981 / 9007199254740992)) (Num (4660212825319223 / 2251799813685248)) = Num (2455493913380533 / 9007199254740992)"
    using U by (intro div_val [where k = 54]) (simp_all add: is_scale_def round_at_def rne_def)
  have a10: "fp_lit U 2.71078540045147805 = Num (6104146059677329 / 2251799813685248)"
    using U by (intro lit_val [where k = 51]) (simp_all add: is_scale_def round_at_def rne_def)
  have a10d: "is_scale 51 (6104146059677329 / 2251799813685248)" "round_at 51 (6104146059677329 / 2251799813685248) = 6104146059677329 / 2251799813685248"
    by (simp_all add: is_scale_def round_at_def rne_def)
  have a11: "fp_lit U 5.80755613130301624 = Num (204335215850543 / 35184372088832)"
    using U by (intro lit_val [where k = 50]) (simp_all add: is_scale_def round_at_def rne_def)
  have a11d: "is_scale 50 (204335215850543 / 35184372088832)" "round_at 50 (204335215850543 / 35184372088832) = 204335215850543 / 35184372088832"
    by (simp_all add: is_scale_def round_at_def rne_def)
  have a12: "fp_lit U 3.47954057099518960 = Num (7835228809477229 / 2251799813685248)"
    using U by (intro lit_val [where k = 51]) (simp_all add: is_scale_def round_at_def rne_def)
  have a12d: "is_scale 51 (7835228809477229 / 2251799813685248)" "round_at 51 (7835228809477229 / 2251799813685248) = 7835228809477229 / 2251799813685248"
    by (simp_all add: is_scale_def round_at_def rne_def)
  have a13: "fp_lit U 12.06166887286239555 = Num (3395057965080587 / 281474976710656)"
    using U by (intro lit_val [where k = 49]) (simp_all add: is_scale_def round_at_def rne_def)
  have a13d: "is_scale 49 (3395057965080587 / 281474976710656)" "round_at 49 (3395057965080587 / 281474976710656) = 3395057965080587 / 281474976710656"
    by (simp_all add: is_scale_def round_at_def rne_def)
  have n1: "num_add U (num_mul U (num_add U x (fp_lit U 2.71078540045147805)) x) (fp_lit U 5.80755613130301624) = Num (204335215850543 / 35184372088832)"
    by (rule poly_at_zero [OF U x a10 _ a10d a11 _ a11d]) simp_all
  have d1: "num_add U (num_mul U (num_add U x (fp_lit U 3.47954057099518960)) x) (fp_lit U 12.06166887286239555) = Num (3395057965080587 / 281474976710656)"
    by (rule poly_at_zero [OF U x a12 _ a12d a13 _ a13d]) simp_all
  have q1: "num_div U (Num (204335215850543 / 35184372088832)) (Num (3395057965080587 / 281474976710656)) = Num (8673727625773429 / 18014398509481984)"
    using U by (intro div_val [where k = 54]) (simp_all add: is_scale_def round_at_def rne_def)
  have r1: "num_mul U (Num (2455493913380533 / 9007199254740992)) (Num (8673727625773429 / 18014398509481984)) = Num (2364584682657793 / 18014398509481984)"
    using U by (intro mul_val [where k = 55]) (simp_all add: is_scale_def round_at_def rne_def)
  have a20: "fp_lit U 3.47469513777439592 = Num (3912158931926711 / 1125899906842624)"
    using U by (intro lit_val [where k = 51]) (simp_all add: is_scale_def round_at_def rne_def)
  have a20d: "is_scale 51 (3912158931926711 / 1125899906842624)" "round_at 51 (3912158931926711 / 1125899906842624) = 3912158931926711 / 1125899906842624"
    by (simp_all add: is_scale_def round_at_def rne_def)
  have a21: "fp_lit U 12.07402036406381411 = Num (6797069201557697 / 562949953421312)"
    using U by (intro lit_val [where k = 49]) (simp_all add: is_scale_def round_at_def rne_def)
  have a21d: "is_scale 49 (6797069201557697 / 562949953421312)" "round_at 49 (6797069201557697 / 562949953421312) = 6797069201557697 / 562949953421312"
    by (simp_all add: is_scale_def round_at_def rne_def)
  have a22: "fp_lit U 3.72068443960225092 = Num (4189118263938975 / 1125899906842624)"
    using U by (intro lit_val [where k = 51]) (simp_all add: is_scale_def round_at_def rne_def)
  have a22d: "is_scale 51 (4189118263938975 / 1125899906842624)" "round_at 51 (4189118263938975 / 1125899906842624) = 4189118263938975 / 1125899906842624"
    by (simp_all add: is_scale_def round_at_def rne_def)
  have a23: "fp_lit U 8.44319781003968454 = Num (1188274453472191 / 140737488355328)"
    using U by (intro lit_val [where k = 49]) (simp_all add: is_scale_def round_at_def rne_def)
  have a23d: "is_scale 49 (1188274453472191 / 140737488355328)" "round_at 49 (1188274453472191 / 140737488355328) = 1188274453472191 / 140737488355328"
    by (simp_all add: is_scale_def round_at_def rne_def)
  have n2: "num_add U (num_mul U (num_add U x (fp_lit U 3.47469513777439592)) x) (fp_lit U 12.07402036406381411) = Num (6797069201557697 / 562949953421312)"
    by (rule poly_at_zero [OF U x a20 _ a20d a21 _ a21d]) simp_all
  have d2: "num_add U (num_mul U (num_add U x (fp_lit U 3.72068443960225092)) x) (fp_lit U 8.44319781003968454) = Num (1188274453472191 / 140737488355328)"
    by (rule poly_at_zero [OF U x a22 _ a22d a23 _ a23d]) simp_all
  have q2: "num_div U (Num (6797069201557697 / 562949953421312)) (Num (1188274453472191 / 140737488355328)) = Num (6440279481288855 / 4503599627370496)"
    using U by (intro div_val [where k = 52]) (simp_all add: is_scale_def round_at_def rne_def)
  have r2: "num_mul U (Num (2364584682657793 / 18014398509481984)) (Num (6440279481288855 / 4503599627370496)) = Num (1690712704670683 / 9007199254740992)"
    using U by (intro mul_val [where k = 55]) (simp_all add: is_scale_def round_at_def rne_def)
  have a30: "fp_lit U 4.00561509202259545 = Num (4509921658955649 / 1125899906842624)"
    using U by (intro lit_val [where k = 50]) (simp_all add: is_scale_def round_at_def rne_def)
  have a30d: "is_scale 50 (4509921658955649 / 1125899906842624)" "round_at 50 (4509921658955649 / 1125899906842624) = 4509921658955649 / 1125899906842624"
    by (simp_all add: is_scale_def round_at_def rne_def)
  have a31: "fp_lit U 9.30596659485887898 = Num (5238793461116091 / 562949953421312)"
    using U by (intro lit_val [where k = 49]) (simp_all add: is_scale_def round_at_def rne_def)
  have a31d: "is_scale 49 (5238793461116091 / 562949953421312)" "round_at 49 (5238793461116091 / 562949953421312) = 5238793461116091 / 562949953421312"
    by (simp_all add: is_scale_def round_at_def rne_def)
  have a32: "fp_lit U 3.90225704029924078 = Num (4393550838148889 / 1125899906842624)"
    using U by (intro lit_val [where k = 51]) (simp_all add: is_scale_def round_at_def rne_def)
  have a32d: "is_scale 51 (4393550838148889 / 1125899906842624)" "round_at 51 (4393550838148889 / 1125899906842624) = 4393550838148889 / 1125899906842624"
    by (simp_all add: is_scale_def round_at_def rne_def)
  have a33: "fp_lit U 6.36161630953880464 = Num (3581271605139129 / 562949953421312)"
    using U by (intro lit_val [where k = 50]) (simp_all add: is_scale_def round_at_def rne_def)
  have a33d: "is_scale 50 (3581271605139129 / 562949953421312)" "round_at 50 (3581271605139129 / 562949953421312) = 3581271605139129 / 562949953421312"
    by (simp_all add: is_scale_def round_at_def rne_def)
  have n3: "num_add U (num_mul U (num_add U x (fp_lit U 4.00561509202259545)) x) (fp_lit U 9.30596659485887898) = Num (5238793461116091 / 562949953421312)"
    by (rule poly_at_zero [OF U x a30 _ a30d a31 _ a31d]) simp_all
  have d3: "num_add U (num_mul U (num_add U x (fp_lit U 3.90225704029924078)) x) (fp_lit U 6.36161630953880464) = Num (3581271605139129 / 562949953421312)"
    by (rule poly_at_zero [OF U x a32 _ a32d a33 _ a33d]) simp_all
  have q3: "num_div U (Num (5238793461116091 / 562949953421312)) (Num (3581271605139129 / 562949953421312)) = Num (6588003056092373 / 4503599627370496)"
    using U by (intro div_val [where k = 52]) (simp_all add: is_scale_def round_at_def rne_def)
  have r3: "num_mul U (Num (1690712704670683 / 9007199254740992)) (Num (6588003056092373 / 4503599627370496)) = Num (4946452343432677 / 18014398509481984)"
    using U by (intro mul_val [where k = 54]) (simp_all add: is_scale_def round_at_def rne_def)
  have a40: "fp_lit U 5.16722705817812584 = Num (2908890231718719 / 562949953421312)"
    using U by (intro lit_val [where k = 50]) (simp_all add: is_scale_def round_at_def rne_def)
  have a40d: "is_scale 50 (2908890231718719 / 562949953421312)" "round_at 50 (2908890231718719 / 562949953421312) = 2908890231718719 / 562949953421312"
    by (simp_all add: is_scale_def round_at_def rne_def)
  have a41: "fp_lit U 9.12661617673673262 = Num (642228518948517 / 70368744177664)"
    using U by (intro lit_val [where k = 49]) (simp_all add: is_scale_def round_at_def rne_def)
  have a41d: "is_scale 49 (642228518948517 / 70368744177664)" "round_at 49 (642228518948517 / 70368744177664) = 642228518948517 / 70368744177664"
    by (simp_all add: is_scale_def round_at_def rne_def)
  have a42: "fp_lit U 4.03296893109262491 = Num (4540719343816383 / 1125899906842624)"
    using U by (intro lit_val [where k = 50]) (simp_all add: is_scale_def round_at_def rne_def)
  have a42d: "is_scale 50 (4540719343816383 / 1125899906842624)" "round_at 50 (4540719343816383 / 1125899906842624) = 4540719343816383 / 1125899906842624"
    by (simp_all add: is_scale_def round_at_def rne_def)
  have a43: "fp_lit U 5.13578530585681539 = Num (2891190098713953 / 562949953421312)"
    using U by (intro lit_val [where k = 50]) (simp_all add: is_scale_def round_at_def rne_def)
  have a43d: "is_scale 50 (2891190098713953 / 562949953421312)" "round_at 50 (2891190098713953 / 562949953421312) = 2891190098713953 / 562949953421312"
    by (simp_all add: is_scale_def round_at_def rne_def)
  have n4: "num_add U (num_mul U (num_add U x (fp_lit U 5.16722705817812584)) x) (fp_lit U 9.12661617673673262) = Num (642228518948517 / 70368744177664)"
    by (rule poly_at_zero [OF U x a40 _ a40d a41 _ a41d]) simp_all
  have d4: "num_add U (num_mul U (num_add U x (fp_lit U 4.03296893109262491)) x) (fp_lit U 5.13578530585681539) = Num (2891190098713953 / 562949953421312)"
    by (rule poly_at_zero [OF U x a42 _ a42d a43 _ a43d]) simp_all
  have q4: "num_div U (Num (642228518948517 / 70368744177664)) (Num (2891190098713953 / 562949953421312)) = Num (4001591067857911 / 2251799813685248)"
    using U by (intro div_val [where k = 52]) (simp_all add: is_scale_def round_at_def rne_def)
  have r4: "num_mul U (Num (4946452343432677 / 18014398509481984)) (Num (4001591067857911 / 2251799813685248)) = Num (8790159495870601 / 18014398509481984)"
    using U by (intro mul_val [where k = 54]) (simp_all add: is_scale_def round_at_def rne_def)
  have a50: "fp_lit U 5.95908795446633271 = Num (6709336572800647 / 1125899906842624)"
    using U by (intro lit_val [where k = 50]) (simp_all add: is_scale_def round_at_def rne_def)
  have a50d: "is_scale 50 (6709336572800647 / 1125899906842624)" "round_at 50 (6709336572800647 / 1125899906842624) = 6709336572800647 / 1125899906842624"
    by (simp_all add: is_scale_def round_at_def rne_def)
  have a51: "fp_lit U 9.19435612886969243 = Num (1293990588621537 / 140737488355328)"
    using U by (intro lit_val [where k = 49]) (simp_all add: is_scale_def round_at_def rne_def)
  have a51d: "is_scale 49 (1293990588621537 / 140737488355328)" "round_at 49 (1293990588621537 / 140737488355328) = 1293990588621537 / 140737488355328"
    by (simp_all add: is_scale_def round_at_def rne_def)
  have a52: "fp_lit U 4.11240942957450885 = Num (1157540348414167 / 281474976710656)"
    using U by (intro lit_val [where k = 50]) (simp_all add: is_scale_def round_at_def rne_def)
  have a52d: "is_scale 50 (1157540348414167 / 281474976710656)" "round_at 50 (1157540348414167 / 281474976710656) = 1157540348414167 / 281474976710656"
    by (simp_all add: is_scale_def round_at_def rne_def)
  have a53: "fp_lit U 4.48640329523408675 = Num (1262810263040625 / 281474976710656)"
    using U by (intro lit_val [where k = 50]) (simp_all add: is_scale_def round_at_def rne_def)
  have a53d: "is_scale 50 (1262810263040625 / 281474976710656)" "round_at 50 (1262810263040625 / 281474976710656) = 1262810263040625 / 281474976710656"
    by (simp_all add: is_scale_def round_at_def rne_def)
  have n5: "num_add U (num_mul U (num_add U x (fp_lit U 5.95908795446633271)) x) (fp_lit U 9.19435612886969243) = Num (1293990588621537 / 140737488355328)"
    by (rule poly_at_zero [OF U x a50 _ a50d a51 _ a51d]) simp_all
  have d5: "num_add U (num_mul U (num_add U x (fp_lit U 4.11240942957450885)) x) (fp_lit U 4.48640329523408675) = Num (1262810263040625 / 281474976710656)"
    by (rule poly_at_zero [OF U x a52 _ a52d a53 _ a53d]) simp_all
  have q5: "num_div U (Num (1293990588621537 / 140737488355328)) (Num (1262810263040625 / 281474976710656)) = Num (576849874373151 / 281474976710656)"
    using U by (intro div_val [where k = 51]) (simp_all add: is_scale_def round_at_def rne_def)
  have r5: "num_mul U (Num (8790159495870601 / 18014398509481984)) (Num (576849874373151 / 281474976710656)) = Num (4503599627370495 / 4503599627370496)"
    using U by (intro mul_val [where k = 53]) (simp_all add: is_scale_def round_at_def rne_def)
  have p: "num_mul U (Num 1) (Num (5081767996463981 / 9007199254740992)) = Num (5081767996463981 / 9007199254740992)"
    using U by (intro mul_val [where k = 53]) (simp_all add: is_scale_def round_at_def rne_def)
  have s: "num_add U x (Num (4660212825319223 / 2251799813685248)) = Num (4660212825319223 / 2251799813685248)"
    using U x by (intro zero_add_val [where k = 51]) (simp_all add: is_scale_def round_at_def rne_def)
  note t = zero_tests [OF x]
  show ?thesis
    by (subst erfc.simps)
       (simp only: t if_False as_def fold.simps comp_apply id_apply case_prod_conv
          e c0 p c1 s r0 n1 d1 q1 r1 n2 d2 q2 r2 n3 d3 q3 r3 n4 d4 q4 r4 n5 d5 q5 r5)
qed

subsection \<open>cdf at zero and at the infinities\<close>

lemma sqrt2_facts:
  assumes "binary64 U"
  shows "is_fin (fp_SQRT2 U)" "fin (fp_SQRT2 U) \<noteq> 0"
    "num_div U PosInf (fp_SQRT2 U) = PosInf" "num_div U NegInf (fp_SQRT2 U) = NegInf"
  using assms by (auto simp: binary64_def num_div_def)

lemma sub_val:
  assumes "binary64 U" "k \<le> 1074" "is_scale k (a - b)" "round_at k (a - b) = v"
  shows "num_sub U (Num a) (Num b) = Num v"
proof -
  have "rounded (fin (Num a) - fin (Num b)) (num_sub U (Num a) (Num b))"
    using assms(1) by (intro rounded_sub) simp_all
  then have "rounded (a - b) (num_sub U (Num a) (Num b))" by simp
  then show ?thesis using assms(2,3,4) by (rule rounded_val)
qed

lemma add_val:
  assumes "binary64 U" "k \<le> 1074" "is_scale k (a + b)" "round_at k (a + b) = v"
  shows "num_add U (Num a) (Num b) = Num v"
proof -
  have "rounded (fin (Num a) + fin (Num b)) (num_add U (Num a) (Num b))"
    using assms(1) by (intro rounded_add) simp_all
  then have "rounded (a + b) (num_add U (Num a) (Num b))" by simp
  then show ?thesis using assms(2,3,4) by (rule rounded_val)
qed

lemma erfc_PosInf: "erfc U PosInf = Num 0"
  by (subst erfc.simps) (simp add: num_lt_def num_ge_def num_le_def)

lemma erfc_NegInf:
  assumes "binary64 U"
  shows "erfc U NegInf = Num 2"
proof -
  have "erfc U NegInf = num_sub U (Num 2) (erfc U (num_neg NegInf))"
    by (subst erfc.simps) (simp add: num_lt_def)
  also have "\<dots> = num_sub U (Num 2) (Num 0)" by (simp add: erfc_PosInf)
  also have "\<dots> = Num 2"
    using assms by (intro sub_val [where k = 51]) (simp_all add: is_scale_def round_at_def rne_def)
  finally show ?thesis .
qed

lemma cdf_zero:
  assumes U: "binary64 U" and x: "is_fin x" "fin x = 0"
  shows "cdf U x = Num (4503599627370495 / 9007199254740992)"
proof -
  note s = sqrt2_facts [OF U]
  have nx: "is_fin (num_neg x)" "fin (num_neg x) = 0"
    using neg_zero x by blast+
  have "rounded (fin (num_neg x) / fin (fp_SQRT2 U)) (num_div U (num_neg x) (fp_SQRT2 U))"
    using U nx(1) s(1,2) by (intro rounded_div)
  then have "rounded 0 (num_div U (num_neg x) (fp_SQRT2 U))" using nx(2) by simp
  then have "is_fin (num_div U (num_neg x) (fp_SQRT2 U))"
    "fin (num_div U (num_neg x) (fp_SQRT2 U)) = 0"
    using rounded_zero by blast+
  then have "erfc U (num_div U (num_neg x) (fp_SQRT2 U)) = Num (4503599627370495 / 4503599627370496)"
    using U by (intro erfc_zero)
  moreover have "num_div U (Num (4503599627370495 / 4503599627370496)) (Num 2)
      = Num (4503599627370495 / 9007199254740992)"
    using U by (intro div_val [where k = 54]) (simp_all add: is_scale_def round_at_def rne_def)
  ultimately show ?thesis by (simp add: cdf_def)
qed

text \<open>
  Claim C9. In binary64 arithmetic \<open>cdf(0)\<close> is the double \<open>1/2 - 2^-53\<close>, within
  the floating-point epsilon \<open>2^-52\<close> of \<open>0.5\<close>; \<open>cdf(Infinity)\<close> is exactly 1 and
  \<open>cdf(-Infinity)\<close> is a zero.
\<close>

theorem cdf_values:
  assumes "binary64 U"
  shows "cdf U (Num 0) = Num (1 / 2 - 1 / 2 ^ 53)
       \<and> \<bar>fin (cdf U (Num 0)) - 1 / 2\<bar> \<le> 1 / 2 ^ 52
       \<and> cdf U PosInf = Num 1
       \<and> is_fin (cdf U NegInf) \<and> fin (cdf U NegInf) = 0"
proof -
  note s = sqrt2_facts [OF assms]
  have z: "cdf U (Num 0) = Num (4503599627370495 / 9007199254740992)"
    using assms by (intro cdf_zero) simp_all
  have "cdf U PosInf = num_div U (erfc U NegInf) (Num 2)"
    by (simp add: cdf_def s(4))
  also have "\<dots> = num_div U (Num 2) (Num 2)" by (simp add: erfc_NegInf [OF assms])
  also have "\<dots> = Num 1"
    using assms by (intro div_val [where k = 52]) (simp_all add: is_scale_def round_at_def rne_def)
  finally have p: "cdf U PosInf = Num 1" .
  have "cdf U NegInf = num_div U (Num 0) (Num 2)"
    by (simp add: cdf_def s(3) erfc_PosInf)
  moreover have "rounded (fin (Num 0) / fin (Num 2)) (num_div U (Num 0) (Num 2))"
    using assms by (intro rounded_div) simp_all
  then have "rounded 0 (num_div U (Num 0) (Num 2))" by simp
  ultimately have n: "is_fin (cdf U NegInf)" "fin (cdf U NegInf) = 0"
    using rounded_zero by simp_all
  show ?thesis using z p n by simp
qed

theorem cdf_values_witness:
  "binary64 b64_fpu
   \<and> cdf b64_fpu (Num 0) = Num (1 / 2 - 1 / 2 ^ 53)
   \<and> cdf b64_fpu PosInf = Num 1
   \<and> fin (cdf b64_fpu NegInf) = 0"
  using binary64_b64 cdf_values [OF binary64_b64] by simp

subsection \<open>The error of a rounding\<close>

text \<open>
  Every real of normal size has a scale, and rounding at it moves a value by at most
  \<open>2^-53\<close> of its magnitude. With the bound on results below \<open>tiny\<close>, a correctly
  rounded result \<open>c\<close> of \<open>z\<close> is within \<open>|z| * 2^-53 + tiny\<close> of \<open>z\<close> and has
  its sign. The cruder bounds, one part in a thousand, are enough to bound \<open>erfc\<close>.
\<close>

lemma scale_exists:
  assumes "tiny \<le> \<bar>z\<bar>" "\<bar>z\<bar> < 2 ^ 53"
  shows "\<exists>k\<le>1074. is_scale k z"
proof -
  let ?P = "\<lambda>k. (2::real) ^ 52 \<le> \<bar>z\<bar> * 2 ^ k"
  let ?k = "LEAST k. ?P k"
  have "tiny * 2 ^ 1074 \<le> \<bar>z\<bar> * 2 ^ 1074"
    using assms(1) by (intro mult_right_mono) simp_all
  then have top: "?P 1074" by (simp add: tiny_def)
  then have k: "?P ?k" by (rule LeastI)
  have le: "?k \<le> 1074" using top by (rule Least_le)
  have "\<bar>z\<bar> * 2 ^ ?k < 2 ^ 53"
  proof (cases ?k)
    case 0
    then show ?thesis using assms(2) by simp
  next
    case (Suc j)
    then have "j < ?k" by simp
    then have "\<not> ?P j" by (rule not_less_Least)
    then have "\<bar>z\<bar> * 2 ^ j * 2 < 2 ^ 52 * 2" by simp
    then have "\<bar>z\<bar> * 2 ^ Suc j < 2 ^ 53" by simp
    then show ?thesis unfolding Suc .
  qed
  then have "is_scale ?k z" using k by (simp add: is_scale_def)
  then show ?thesis using le by blast
qed

lemma round_at_error:
  assumes "is_scale k z"
  shows "\<bar>round_at k z - z\<bar> \<le> \<bar>z\<bar> / 2 ^ 53"
proof -
  let ?y = "z * 2 ^ k"
  have "round_at k z - z = (of_int (rne ?y) - ?y) / 2 ^ k"
    by (simp add: round_at_def field_simps)
  then have "\<bar>round_at k z - z\<bar> = \<bar>of_int (rne ?y) - ?y\<bar> / 2 ^ k"
    by (simp add: abs_divide)
  also have "\<dots> \<le> (1 / 2) / 2 ^ k"
    by (intro divide_right_mono rne_error) simp
  also have "\<dots> = 2 ^ 52 / 2 ^ k / 2 ^ 53" by simp
  also have "\<dots> \<le> \<bar>z\<bar> / 2 ^ 53"
  proof -
    have "2 ^ 52 \<le> \<bar>z\<bar> * 2 ^ k" using assms by (simp add: is_scale_def)
    then have "2 ^ 52 / 2 ^ k \<le> \<bar>z\<bar>" by (simp add: field_simps)
    then show ?thesis by (intro divide_right_mono) simp_all
  qed
  finally show ?thesis .
qed

lemma round_at_sign:
  "0 \<le> z \<Longrightarrow> 0 \<le> round_at k z" "z \<le> 0 \<Longrightarrow> round_at k z \<le> 0"
proof -
  assume "0 \<le> z"
  then have "0 \<le> rne (z * 2 ^ k)" by (intro rne_nonneg) simp
  then show "0 \<le> round_at k z" by (simp add: round_at_def)
next
  assume "z \<le> 0"
  then have "z * 2 ^ k \<le> 0" by (simp add: mult_le_0_iff)
  then have "rne (z * 2 ^ k) \<le> 0" by (rule rne_nonpos)
  then show "round_at k z \<le> 0" by (simp add: round_at_def divide_le_0_iff)
qed

lemma rounded_err:
  assumes "rounded z c" "\<bar>z\<bar> < 2 ^ 53"
  shows "is_fin c" "\<bar>fin c - z\<bar> \<le> \<bar>z\<bar> / 2 ^ 53 + tiny"
    "0 \<le> z \<Longrightarrow> 0 \<le> fin c" "z \<le> 0 \<Longrightarrow> fin c \<le> 0"
proof -
  have t0: "0 \<le> tiny" by (simp add: tiny_def)
  show "is_fin c" using assms by (simp add: rounded_def)
  have all: "\<bar>fin c - z\<bar> \<le> \<bar>z\<bar> / 2 ^ 53 + tiny
      \<and> (0 \<le> z \<longrightarrow> 0 \<le> fin c) \<and> (z \<le> 0 \<longrightarrow> fin c \<le> 0)"
  proof (cases "\<bar>z\<bar> < tiny")
    case True
    then have s: "\<bar>fin c\<bar> \<le> tiny" "0 \<le> z \<longrightarrow> 0 \<le> fin c" "z \<le> 0 \<longrightarrow> fin c \<le> 0"
      using assms(1) by (simp_all add: rounded_def)
    have "\<bar>fin c - z\<bar> \<le> tiny"
      using s True by (cases "0 \<le> z") (auto simp: abs_le_iff)
    moreover have "0 \<le> \<bar>z\<bar> / 2 ^ 53" by simp
    ultimately show ?thesis using s(2,3) by linarith
  next
    case False
    then obtain k where k: "k \<le> 1074" "is_scale k z"
      using scale_exists [of z] assms(2) by auto
    then have c: "c = Num (round_at k z)" using assms(1) by (simp add: rounded_def)
    show ?thesis
      using round_at_error [OF k(2)] round_at_sign [of z k] t0 by (simp add: c)
  qed
  then show "\<bar>fin c - z\<bar> \<le> \<bar>z\<bar> / 2 ^ 53 + tiny"
    "0 \<le> z \<Longrightarrow> 0 \<le> fin c" "z \<le> 0 \<Longrightarrow> fin c \<le> 0"
    by blast+
qed

lemma rounded_pos:
  assumes "rounded z c" "0 \<le> z" "z < 2 ^ 53"
  shows "is_fin c" "0 \<le> fin c" "fin c \<le> z * (1001 / 1000) + 1 / 1000"
    "z * (999 / 1000) - 1 / 1000 \<le> fin c"
proof -
  have a: "\<bar>z\<bar> < 2 ^ 53" using assms(2,3) by simp
  note e = rounded_err [OF assms(1) a]
  show "is_fin c" "0 \<le> fin c" using e(1) e(3) assms(2) by simp_all
  have t: "tiny \<le> 1 / 1000" by (simp add: tiny_def)
  have "z / 2 ^ 53 \<le> z / 1000" using assms(2) by (intro divide_left_mono) simp_all
  then have "\<bar>fin c - z\<bar> \<le> z / 1000 + 1 / 1000"
    using e(2) t assms(2) by simp
  then have "fin c - z \<le> z / 1000 + 1 / 1000" "- (fin c - z) \<le> z / 1000 + 1 / 1000"
    by (simp_all only: abs_le_iff)
  then show "fin c \<le> z * (1001 / 1000) + 1 / 1000" "z * (999 / 1000) - 1 / 1000 \<le> fin c"
    by linarith+
qed

lemma rounded_in:
  assumes "rounded z c" "0 \<le> z" "z \<le> B" "B \<le> 2 ^ 52"
  shows "is_fin c" "0 \<le> fin c" "fin c \<le> z * (1001 / 1000) + 1 / 1000"
    "z * (999 / 1000) - 1 / 1000 \<le> fin c" "fin c \<le> 2 * B + 1"
proof -
  have "z < 2 ^ 53" using assms(3,4) by simp
  note r = rounded_pos [OF assms(1,2) this]
  show "is_fin c" "0 \<le> fin c" "fin c \<le> z * (1001 / 1000) + 1 / 1000"
    "z * (999 / 1000) - 1 / 1000 \<le> fin c"
    using r by simp_all
  show "fin c \<le> 2 * B + 1" using r(3) assms(2,3) by simp
qed

lemma rounded_between:
  assumes "rounded z c" "0 \<le> L" "L \<le> z" "z \<le> B" "B \<le> 2 ^ 52"
  shows "L * (999 / 1000) - 1 / 1000 \<le> fin c" "fin c \<le> B * (1001 / 1000) + 1 / 1000"
proof -
  have z: "0 \<le> z" using assms(2,3) by simp
  note r = rounded_in [OF assms(1) z assms(4,5)]
  have "L * (999 / 1000) \<le> z * (999 / 1000)"
    using assms(3) by (intro mult_right_mono) simp_all
  then show "L * (999 / 1000) - 1 / 1000 \<le> fin c" using r(4) by linarith
  have "z * (1001 / 1000) \<le> B * (1001 / 1000)"
    using assms(4) by (intro mult_right_mono) simp_all
  then show "fin c \<le> B * (1001 / 1000) + 1 / 1000" using r(3) by linarith
qed

subsection \<open>erfc between 0 and 30\<close>

text \<open>
  For \<open>0 \<le> x < 30\<close> each of the five factors of \<open>erfc\<close> is a quotient of two
  quadratics in \<open>x\<close> with positive coefficients, the upper ones at most 2.1 times the
  lower ones: rounded it stays below 2.3. The leading term stays below 0.563, since
  \<open>Math.exp\<close> of a number that is not positive is at most 2. So \<open>erfc(x)\<close> is finite,
  not negative and below 38.
\<close>

lemma factor_real:
  fixes X :: real
  assumes X: "0 \<le> X"
    and par: "0 \<le> a0" "a0 \<le> 3 / 2 * a2" "3 \<le> a2" "0 \<le> a1" "a1 \<le> 21 / 10 * a3" "4 \<le> a3"
    and A0: "A0 \<le> a0 * (1001 / 1000) + 1 / 1000"
    and P: "P \<le> (X + A0) * (1001 / 1000) + 1 / 1000"
    and Q: "Q \<le> P * X * (1001 / 1000) + 1 / 1000"
    and A1: "A1 \<le> a1 * (1001 / 1000) + 1 / 1000"
    and N: "N \<le> (Q + A1) * (1001 / 1000) + 1 / 1000"
    and A2: "a2 * (999 / 1000) - 1 / 1000 \<le> A2"
    and P2: "(X + A2) * (999 / 1000) - 1 / 1000 \<le> P2"
    and Q2: "P2 * X * (999 / 1000) - 1 / 1000 \<le> Q2"
    and A3: "a3 * (999 / 1000) - 1 / 1000 \<le> A3"
    and D: "(Q2 + A3) * (999 / 1000) - 1 / 1000 \<le> D"
  shows "N \<le> 229 / 100 * D" "39 / 10 \<le> D"
proof -
  have xx: "0 \<le> X * X" by simp
  have f1: "P * X \<le> 1001 / 1000 * (X * X) + 1001 / 1000 * (A0 * X) + 1 / 1000 * X"
  proof -
    have "P * X \<le> ((X + A0) * (1001 / 1000) + 1 / 1000) * X"
      using P X by (rule mult_right_mono)
    moreover have "((X + A0) * (1001 / 1000) + 1 / 1000) * X
        = 1001 / 1000 * (X * X) + 1001 / 1000 * (A0 * X) + 1 / 1000 * X"
      by (simp add: field_simps)
    ultimately show ?thesis by simp
  qed
  have f2: "A0 * X \<le> 1001 / 1000 * (a0 * X) + 1 / 1000 * X"
  proof -
    have "A0 * X \<le> (a0 * (1001 / 1000) + 1 / 1000) * X"
      using A0 X by (rule mult_right_mono)
    moreover have "(a0 * (1001 / 1000) + 1 / 1000) * X = 1001 / 1000 * (a0 * X) + 1 / 1000 * X"
      by (simp add: field_simps)
    ultimately show ?thesis by simp
  qed
  have f3: "a0 * X \<le> 3 / 2 * (a2 * X)"
  proof -
    have "a0 * X \<le> (3 / 2 * a2) * X" using par(2) X by (rule mult_right_mono)
    then show ?thesis by simp
  qed
  have f4: "0 \<le> a0 * X" using par(1) X by simp
  have g1: "999 / 1000 * (X * X) + 999 / 1000 * (A2 * X) - 1 / 1000 * X \<le> P2 * X"
  proof -
    have "((X + A2) * (999 / 1000) - 1 / 1000) * X \<le> P2 * X"
      using P2 X by (rule mult_right_mono)
    moreover have "((X + A2) * (999 / 1000) - 1 / 1000) * X
        = 999 / 1000 * (X * X) + 999 / 1000 * (A2 * X) - 1 / 1000 * X"
      by (simp add: field_simps)
    ultimately show ?thesis by simp
  qed
  have g2: "999 / 1000 * (a2 * X) - 1 / 1000 * X \<le> A2 * X"
  proof -
    have "(a2 * (999 / 1000) - 1 / 1000) * X \<le> A2 * X"
      using A2 X by (rule mult_right_mono)
    moreover have "(a2 * (999 / 1000) - 1 / 1000) * X = 999 / 1000 * (a2 * X) - 1 / 1000 * X"
      by (simp add: field_simps)
    ultimately show ?thesis by simp
  qed
  have g3: "3 * X \<le> a2 * X" using par(3) X by (rule mult_right_mono)
  have Q': "Q \<le> 1001 / 1000 * (P * X) + 1 / 1000" using Q by simp
  have "(Q + A1) * (1001 / 1000) = 1001 / 1000 * Q + 1001 / 1000 * A1"
    by (simp add: field_simps)
  then have N': "N \<le> 1001 / 1000 * Q + 1001 / 1000 * A1 + 1 / 1000"
    using N by (simp only:)
  have A1': "A1 \<le> 1001 / 1000 * a1 + 1 / 1000" using A1 by simp
  have Q2': "999 / 1000 * (P2 * X) - 1 / 1000 \<le> Q2" using Q2 by simp
  have "(Q2 + A3) * (999 / 1000) = 999 / 1000 * Q2 + 999 / 1000 * A3"
    by (simp add: field_simps)
  then have D': "999 / 1000 * Q2 + 999 / 1000 * A3 - 1 / 1000 \<le> D"
    using D by (simp only:)
  have A3': "999 / 1000 * a3 - 1 / 1000 \<le> A3" using A3 by simp
  have n1: "N \<le> 1002001 / 1000000 * (P * X) + 1001 / 1000 * A1 + 2001 / 1000000"
    using Q' N' by linarith
  have n2: "P * X \<le> 1001 / 1000 * (X * X) + 1002001 / 1000000 * (a0 * X) + 2001 / 1000000 * X"
    using f1 f2 by linarith
  have n3: "N \<le> 101 / 100 * (X * X) + 152 / 100 * (a2 * X) + 3 / 1000 * X
              + 101 / 100 * a1 + 4 / 1000"
    using n1 n2 f3 f4 A1' xx X par(1,3,4) g3 by linarith
  have d1: "998001 / 1000000 * (P2 * X) + 999 / 1000 * A3 - 1999 / 1000000 \<le> D"
    using Q2' D' by linarith
  have d2: "999 / 1000 * (X * X) + 998001 / 1000000 * (a2 * X) - 1999 / 1000000 * X \<le> P2 * X"
    using g1 g2 by linarith
  have d3: "99 / 100 * (X * X) + 99 / 100 * (a2 * X) - 3 / 1000 * X + 99 / 100 * a3 - 4 / 1000 \<le> D"
    using d1 d2 A3' xx X g3 par(3,6) by linarith
  show "N \<le> 229 / 100 * D"
    using n3 d3 xx X g3 par by linarith
  show "39 / 10 \<le> D"
    using d3 xx X g3 par by linarith
qed

lemma poly_bounds:
  assumes U: "binary64 U" and x: "is_fin x" "0 \<le> fin x" "fin x < 30"
    and a: "0 \<le> a" "a \<le> 50" and b: "0 \<le> b" "b \<le> 50"
  defines "A \<equiv> fp_lit U a" and "B \<equiv> fp_lit U b"
  defines "P \<equiv> num_add U x A"
  defines "Q \<equiv> num_mul U P x"
  defines "N \<equiv> num_add U Q B"
  shows "is_fin N" "0 \<le> fin N" "fin N \<le> 2 ^ 20"
    "fin A \<le> a * (1001 / 1000) + 1 / 1000"
    "fin P \<le> (fin x + fin A) * (1001 / 1000) + 1 / 1000"
    "fin Q \<le> fin P * fin x * (1001 / 1000) + 1 / 1000"
    "fin B \<le> b * (1001 / 1000) + 1 / 1000"
    "fin N \<le> (fin Q + fin B) * (1001 / 1000) + 1 / 1000"
    "a * (999 / 1000) - 1 / 1000 \<le> fin A"
    "(fin x + fin A) * (999 / 1000) - 1 / 1000 \<le> fin P"
    "fin P * fin x * (999 / 1000) - 1 / 1000 \<le> fin Q"
    "b * (999 / 1000) - 1 / 1000 \<le> fin B"
    "(fin Q + fin B) * (999 / 1000) - 1 / 1000 \<le> fin N"
proof -
  have rA: "rounded a A" unfolding A_def using U by (rule rounded_lit)
  have k: "(50::real) \<le> 2 ^ 52" "(131::real) \<le> 2 ^ 52" "(7890::real) \<le> 2 ^ 52"
    "(15882::real) \<le> 2 ^ 52"
    by simp_all
  note A = rounded_in [OF rA a k(1)]
  have A5: "fin A \<le> 101" using A(5) by simp
  have rP: "rounded (fin x + fin A) P"
    unfolding P_def using U x(1) A(1) by (rule rounded_add)
  have "0 \<le> fin x + fin A" "fin x + fin A \<le> 131" using x(2,3) A(2) A5 by simp_all
  note P = rounded_in [OF rP this k(2)]
  have P5: "fin P \<le> 263" using P(5) by simp
  have rQ: "rounded (fin P * fin x) Q"
    unfolding Q_def using U P(1) x(1) by (rule rounded_mul)
  have q0: "0 \<le> fin P * fin x" using P(2) x(2) by simp
  have "fin P * fin x \<le> 263 * 30"
    using P5 x(2,3) P(2) by (intro mult_mono) simp_all
  then have q1: "fin P * fin x \<le> 7890" by simp
  note Q = rounded_in [OF rQ q0 q1 k(3)]
  have Q5: "fin Q \<le> 15781" using Q(5) by simp
  have rB: "rounded b B" unfolding B_def using U by (rule rounded_lit)
  note B = rounded_in [OF rB b k(1)]
  have B5: "fin B \<le> 101" using B(5) by simp
  have rN: "rounded (fin Q + fin B) N"
    unfolding N_def using U Q(1) B(1) by (rule rounded_add)
  have "0 \<le> fin Q + fin B" "fin Q + fin B \<le> 15882" using Q(2) Q5 B(2) B5 by simp_all
  note N = rounded_in [OF rN this k(4)]
  show "is_fin N" "0 \<le> fin N" using N(1,2) by simp_all
  show "fin N \<le> 2 ^ 20" using N(5) by simp
  show "fin A \<le> a * (1001 / 1000) + 1 / 1000" using A(3) .
  show "fin P \<le> (fin x + fin A) * (1001 / 1000) + 1 / 1000" using P(3) .
  show "fin Q \<le> fin P * fin x * (1001 / 1000) + 1 / 1000" using Q(3) .
  show "fin B \<le> b * (1001 / 1000) + 1 / 1000" using B(3) .
  show "fin N \<le> (fin Q + fin B) * (1001 / 1000) + 1 / 1000" using N(3) .
  show "a * (999 / 1000) - 1 / 1000 \<le> fin A" using A(4) .
  show "(fin x + fin A) * (999 / 1000) - 1 / 1000 \<le> fin P" using P(4) .
  show "fin P * fin x * (999 / 1000) - 1 / 1000 \<le> fin Q" using Q(4) .
  show "b * (999 / 1000) - 1 / 1000 \<le> fin B" using B(4) .
  show "(fin Q + fin B) * (999 / 1000) - 1 / 1000 \<le> fin N" using N(4) .
qed

lemma factor_bound:
  assumes U: "binary64 U" and x: "is_fin x" "0 \<le> fin x" "fin x < 30"
    and par: "0 \<le> a0" "a0 \<le> 3 / 2 * a2" "3 \<le> a2" "a2 \<le> 10"
      "0 \<le> a1" "a1 \<le> 21 / 10 * a3" "4 \<le> a3" "a3 \<le> 20"
  defines "N \<equiv> num_add U (num_mul U (num_add U x (fp_lit U a0)) x) (fp_lit U a1)"
    and "D \<equiv> num_add U (num_mul U (num_add U x (fp_lit U a2)) x) (fp_lit U a3)"
  shows "is_fin (num_div U N D)" "0 \<le> fin (num_div U N D)" "fin (num_div U N D) \<le> 23 / 10"
proof -
  have a0: "a0 \<le> 50" and a1: "a1 \<le> 50" and a2: "0 \<le> a2" "a2 \<le> 50"
    and a3: "0 \<le> a3" "a3 \<le> 50"
    using par by simp_all
  note n = poly_bounds [OF U x par(1) a0 par(5) a1, folded N_def]
  note d = poly_bounds [OF U x a2 a3, folded D_def]
  have r: "fin N \<le> 229 / 100 * fin D" "39 / 10 \<le> fin D"
    using factor_real [OF x(2) par(1,2,3,5,6,7) n(4,5,6,7,8) d(9,10,11,12,13)] by simp_all
  have nz: "fin D \<noteq> 0" using r(2) by simp
  have rq: "rounded (fin N / fin D) (num_div U N D)"
    using U n(1) d(1) nz by (rule rounded_div)
  have z0: "0 \<le> fin N / fin D" using n(2) r(2) by simp
  have z1: "fin N / fin D \<le> 229 / 100"
    using r by (simp add: field_simps)
  have "(229 / 100 :: real) \<le> 2 ^ 52" by simp
  note q = rounded_in [OF rq z0 z1 this]
  show "is_fin (num_div U N D)" "0 \<le> fin (num_div U N D)" using q(1,2) by simp_all
  have "fin (num_div U N D) \<le> 229 / 100 * (1001 / 1000) + 1 / 1000"
    using q(3) z1 by simp
  then show "fin (num_div U N D) \<le> 23 / 10" by simp
qed

lemma step_bound:
  assumes U: "binary64 U"
    and r: "is_fin r" "0 \<le> fin r" "fin r \<le> R"
    and q: "is_fin q" "0 \<le> fin q" "fin q \<le> 23 / 10"
    and R: "R \<le> 100"
  shows "is_fin (num_mul U r q)" "0 \<le> fin (num_mul U r q)"
    "fin (num_mul U r q) \<le> R * (23023 / 10000) + 1 / 1000"
proof -
  have rr: "rounded (fin r * fin q) (num_mul U r q)"
    using U r(1) q(1) by (rule rounded_mul)
  have z0: "0 \<le> fin r * fin q" using r(2) q(2) by simp
  have z1: "fin r * fin q \<le> R * (23 / 10)"
    using r(2,3) q(2,3) by (intro mult_mono) simp_all
  have "R * (23 / 10) \<le> 2 ^ 52" using R by simp
  note m = rounded_in [OF rr z0 z1 this]
  show "is_fin (num_mul U r q)" "0 \<le> fin (num_mul U r q)" using m(1,2) by simp_all
  have "fin (num_mul U r q) \<le> R * (23 / 10) * (1001 / 1000) + 1 / 1000"
    using m(3) z1 by simp
  then show "fin (num_mul U r q) \<le> R * (23023 / 10000) + 1 / 1000" by simp
qed

lemma neg_fin: "is_fin x \<Longrightarrow> is_fin (num_neg x) \<and> fin (num_neg x) = - fin x"
  by (cases x) auto

lemma pos_tests:
  assumes "is_fin x" "0 \<le> fin x" "fin x < 30"
  shows "\<not> num_lt x (Num 0)" "\<not> num_ge x (Num 30)"
  using assms by (cases x; simp add: num_lt_def num_ge_def num_le_def num_eq_def)+

lemma lead_bound:
  assumes U: "binary64 U" and x: "is_fin x" "0 \<le> fin x" "fin x < 30"
  defines "r \<equiv> num_div U
      (num_mul U (Math_exp U (num_mul U (num_neg x) x)) (fp_lit U 0.56418958354775629))
      (num_add U x (fp_lit U 2.06955023132914151))"
  shows "is_fin r" "0 \<le> fin r" "fin r \<le> 563 / 1000"
proof -
  let ?m = "num_mul U (num_neg x) x"
  let ?t = "Math_exp U ?m"
  let ?C0 = "fp_lit U 0.56418958354775629"
  let ?C1 = "fp_lit U 2.06955023132914151"
  let ?p = "num_mul U ?t ?C0"
  let ?s = "num_add U x ?C1"
  note nx = neg_fin [OF x(1)]
  have rm: "rounded (fin (num_neg x) * fin x) ?m"
    using U nx x(1) by (intro rounded_mul) simp_all
  have "fin x * fin x < 30 * 30"
    using x(2,3) by (intro mult_strict_mono) simp_all
  then have "\<bar>fin (num_neg x) * fin x\<bar> < 2 ^ 53"
    using nx by (simp add: abs_mult)
  moreover have "fin (num_neg x) * fin x \<le> 0"
    using nx x(2) by (simp add: mult_le_0_iff)
  ultimately have m: "is_fin ?m" "fin ?m \<le> 0"
    using rounded_err(1,4) [OF rm] by simp_all
  have t: "is_fin ?t" "0 \<le> fin ?t" "fin ?t \<le> 2"
    using U m by (simp_all add: binary64_def Math_exp_def)
  have k: "(50::real) \<le> 2 ^ 52" "(2 * 1::real) \<le> 2 ^ 52" "(131::real) \<le> 2 ^ 52"
    by simp_all
  have c0: "(0::real) \<le> 0.56418958354775629" "(0.56418958354775629::real) \<le> 50"
    and c1: "(0::real) \<le> 2.06955023132914151" "(2.06955023132914151::real) \<le> 50"
    by simp_all
  note C0 = rounded_in [OF rounded_lit [OF U] c0 k(1)]
  have C0u: "fin ?C0 \<le> 566 / 1000" using C0(3) by simp
  have rp: "rounded (fin ?t * fin ?C0) ?p"
    using U t(1) C0(1) by (rule rounded_mul)
  have p0: "0 \<le> fin ?t * fin ?C0" using t(2) C0(2) by simp
  have "fin ?t * fin ?C0 \<le> 2 * (566 / 1000)"
    using t(2,3) C0(2) C0u by (intro mult_mono) simp_all
  then have p1: "fin ?t * fin ?C0 \<le> 2 * 1" by simp
  note p = rounded_in [OF rp p0 p1 k(2)]
  have "(2 * (566 / 1000) :: real) \<le> 2 ^ 52" by simp
  from rounded_between(2) [OF rp _ p0 \<open>fin ?t * fin ?C0 \<le> 2 * (566 / 1000)\<close> this]
  have pu: "fin ?p \<le> 1135 / 1000" by simp
  note C1 = rounded_in [OF rounded_lit [OF U] c1 k(1)]
  have C1l: "2066 / 1000 \<le> fin ?C1" using C1(4) by simp
  have C1u: "fin ?C1 \<le> 101" using C1(5) by simp
  have rs: "rounded (fin x + fin ?C1) ?s"
    using U x(1) C1(1) by (rule rounded_add)
  have "0 \<le> fin x + fin ?C1" "fin x + fin ?C1 \<le> 131" using x(2,3) C1(2) C1u by simp_all
  note s = rounded_in [OF rs this k(3)]
  have "2066 / 1000 \<le> fin x + fin ?C1" using C1l x(2) by linarith
  from rounded_between(1) [OF rs _ this \<open>fin x + fin ?C1 \<le> 131\<close> k(3)]
  have sl: "206 / 100 \<le> fin ?s" by simp
  then have snz: "fin ?s \<noteq> 0" by simp
  have rr: "rounded (fin ?p / fin ?s) r"
    unfolding r_def using U p(1) s(1) snz by (rule rounded_div)
  have z0: "0 \<le> fin ?p / fin ?s" using p(2) sl by simp
  have "fin ?p \<le> 56 / 100 * fin ?s" using pu sl by simp
  then have z1: "fin ?p / fin ?s \<le> 56 / 100" using sl by (simp add: field_simps)
  have "(56 / 100 :: real) \<le> 2 ^ 52" by simp
  note r = rounded_in [OF rr z0 z1 this]
  show "is_fin r" "0 \<le> fin r" using r(1,2) by simp_all
  from rounded_between(2) [OF rr _ z0 z1 \<open>(56 / 100 :: real) \<le> 2 ^ 52\<close>]
  show "fin r \<le> 563 / 1000" by simp
qed

lemma erfc_pos_bound:
  assumes U: "binary64 U" and x: "is_fin x" "0 \<le> fin x" "fin x < 30"
  shows "is_fin (erfc U x)" "0 \<le> fin (erfc U x)" "fin (erfc U x) \<le> 38"
proof -
  let ?r0 = "num_div U
      (num_mul U (Math_exp U (num_mul U (num_neg x) x)) (fp_lit U 0.56418958354775629))
      (num_add U x (fp_lit U 2.06955023132914151))"
  note r0 = lead_bound [OF U x]
  let ?q1 = "num_div U (num_add U (num_mul U (num_add U x (fp_lit U 2.71078540045147805)) x) (fp_lit U 5.80755613130301624)) (num_add U (num_mul U (num_add U x (fp_lit U 3.47954057099518960)) x) (fp_lit U 12.06166887286239555))"
  have p1: "(0::real) \<le> 2.71078540045147805" "(2.71078540045147805::real) \<le> 3 / 2 * 3.47954057099518960" "(3::real) \<le> 3.47954057099518960" "(3.47954057099518960::real) \<le> 10"
    "(0::real) \<le> 5.80755613130301624" "(5.80755613130301624::real) \<le> 21 / 10 * 12.06166887286239555" "(4::real) \<le> 12.06166887286239555" "(12.06166887286239555::real) \<le> 20"
    by simp_all
  note q1 = factor_bound [OF U x p1]
  let ?r1 = "num_mul U ?r0 ?q1"
  have b1: "(563 / 1000::real) \<le> 100" by simp
  note s1 = step_bound [OF U r0 q1 b1]
  have r1: "is_fin ?r1" "0 \<le> fin ?r1" "fin ?r1 \<le> 13 / 10"
    using s1 by simp_all
  let ?q2 = "num_div U (num_add U (num_mul U (num_add U x (fp_lit U 3.47469513777439592)) x) (fp_lit U 12.07402036406381411)) (num_add U (num_mul U (num_add U x (fp_lit U 3.72068443960225092)) x) (fp_lit U 8.44319781003968454))"
  have p2: "(0::real) \<le> 3.47469513777439592" "(3.47469513777439592::real) \<le> 3 / 2 * 3.72068443960225092" "(3::real) \<le> 3.72068443960225092" "(3.72068443960225092::real) \<le> 10"
    "(0::real) \<le> 12.07402036406381411" "(12.07402036406381411::real) \<le> 21 / 10 * 8.44319781003968454" "(4::real) \<le> 8.44319781003968454" "(8.44319781003968454::real) \<le> 20"
    by simp_all
  note q2 = factor_bound [OF U x p2]
  let ?r2 = "num_mul U ?r1 ?q2"
  have b2: "(13 / 10::real) \<le> 100" by simp
  note s2 = step_bound [OF U r1 q2 b2]
  have r2: "is_fin ?r2" "0 \<le> fin ?r2" "fin ?r2 \<le> 3"
    using s2 by simp_all
  let ?q3 = "num_div U (num_add U (num_mul U (num_add U x (fp_lit U 4.00561509202259545)) x) (fp_lit U 9.30596659485887898)) (num_add U (num_mul U (num_add U x (fp_lit U 3.90225704029924078)) x) (fp_lit U 6.36161630953880464))"
  have p3: "(0::real) \<le> 4.00561509202259545" "(4.00561509202259545::real) \<le> 3 / 2 * 3.90225704029924078" "(3::real) \<le> 3.90225704029924078" "(3.90225704029924078::real) \<le> 10"
    "(0::real) \<le> 9.30596659485887898" "(9.30596659485887898::real) \<le> 21 / 10 * 6.36161630953880464" "(4::real) \<le> 6.36161630953880464" "(6.36161630953880464::real) \<le> 20"
    by simp_all
  note q3 = factor_bound [OF U x p3]
  let ?r3 = "num_mul U ?r2 ?q3"
  have b3: "(3::real) \<le> 100" by simp
  note s3 = step_bound [OF U r2 q3 b3]
  have r3: "is_fin ?r3" "0 \<le> fin ?r3" "fin ?r3 \<le> 7"
    using s3 by simp_all
  let ?q4 = "num_div U (num_add U (num_mul U (num_add U x (fp_lit U 5.16722705817812584)) x) (fp_lit U 9.12661617673673262)) (num_add U (num_mul U (num_add U x (fp_lit U 4.03296893109262491)) x) (fp_lit U 5.13578530585681539))"
  have p4: "(0::real) \<le> 5.16722705817812584" "(5.16722705817812584::real) \<le> 3 / 2 * 4.03296893109262491" "(3::real) \<le> 4.03296893109262491" "(4.03296893109262491::real) \<le> 10"
    "(0::real) \<le> 9.12661617673673262" "(9.12661617673673262::real) \<le> 21 / 10 * 5.13578530585681539" "(4::real) \<le> 5.13578530585681539" "(5.13578530585681539::real) \<le> 20"
    by simp_all
  note q4 = factor_bound [OF U x p4]
  let ?r4 = "num_mul U ?r3 ?q4"
  have b4: "(7::real) \<le> 100" by simp
  note s4 = step_bound [OF U r3 q4 b4]
  have r4: "is_fin ?r4" "0 \<le> fin ?r4" "fin ?r4 \<le> 162 / 10"
    using s4 by simp_all
  let ?q5 = "num_div U (num_add U (num_mul U (num_add U x (fp_lit U 5.95908795446633271)) x) (fp_lit U 9.19435612886969243)) (num_add U (num_mul U (num_add U x (fp_lit U 4.11240942957450885)) x) (fp_lit U 4.48640329523408675))"
  have p5: "(0::real) \<le> 5.95908795446633271" "(5.95908795446633271::real) \<le> 3 / 2 * 4.11240942957450885" "(3::real) \<le> 4.11240942957450885" "(4.11240942957450885::real) \<le> 10"
    "(0::real) \<le> 9.19435612886969243" "(9.19435612886969243::real) \<le> 21 / 10 * 4.48640329523408675" "(4::real) \<le> 4.48640329523408675" "(4.48640329523408675::real) \<le> 20"
    by simp_all
  note q5 = factor_bound [OF U x p5]
  let ?r5 = "num_mul U ?r4 ?q5"
  have b5: "(162 / 10::real) \<le> 100" by simp
  note s5 = step_bound [OF U r4 q5 b5]
  have r5: "is_fin ?r5" "0 \<le> fin ?r5" "fin ?r5 \<le> 38"
    using s5 by simp_all
  note t = pos_tests [OF x]
  have "erfc U x = ?r5"
    by (subst erfc.simps)
       (simp only: t if_False as_def fold.simps comp_apply id_apply case_prod_conv)
  then show "is_fin (erfc U x)" "0 \<le> fin (erfc U x)" "fin (erfc U x) \<le> 38"
    using r5 by simp_all
qed

subsection \<open>The reflection\<close>

lemma erfc_bound:
  assumes U: "binary64 U" and y: "is_fin y" "0 \<le> fin y"
  shows "is_fin (erfc U y)" "0 \<le> fin (erfc U y)" "fin (erfc U y) \<le> 38"
proof -
  have "is_fin (erfc U y) \<and> 0 \<le> fin (erfc U y) \<and> fin (erfc U y) \<le> 38"
  proof (cases "fin y < 30")
    case True
    then show ?thesis using erfc_pos_bound [OF U y] by simp
  next
    case False
    then have "num_ge y (Num 30)"
      using y by (cases y) (auto simp: num_ge_def num_le_def num_lt_def num_eq_def)
    then have "erfc U y = Num 0" by (rule erfc_saturates)
    then show ?thesis by simp
  qed
  then show "is_fin (erfc U y)" "0 \<le> fin (erfc U y)" "fin (erfc U y) \<le> 38"
    by simp_all
qed

lemma neg_neg: "is_fin y \<Longrightarrow> fin y \<noteq> 0 \<Longrightarrow> num_neg (num_neg y) = y"
  by (cases y) auto

lemma neg_lt: "is_fin y \<Longrightarrow> 0 < fin y \<Longrightarrow> num_lt (num_neg y) (Num 0)"
  by (cases y) (auto simp: num_lt_def)

lemma reflect_pair:
  assumes U: "binary64 U" and y: "is_fin y" "0 < fin y"
  defines "e \<equiv> erfc U y" and "s \<equiv> erfc U (num_neg y)"
  shows "is_fin (num_add U e s)" "\<bar>fin (num_add U e s) - 2\<bar> \<le> 1 / 10 ^ 14"
    "is_fin (num_add U s e)" "\<bar>fin (num_add U s e) - 2\<bar> \<le> 1 / 10 ^ 14"
proof -
  have y0: "0 \<le> fin y" "fin y \<noteq> 0" using y(2) by simp_all
  have e: "is_fin e" "0 \<le> fin e" "fin e \<le> 38"
    unfolding e_def using erfc_bound [OF U y(1) y0(1)] by simp_all
  have "s = num_sub U (Num 2) (erfc U (num_neg (num_neg y)))"
    unfolding s_def using neg_lt [OF y] by (rule erfc_reflects)
  then have s: "s = num_sub U (Num 2) e"
    using neg_neg [OF y(1) y0(2)] by (simp add: e_def)
  have "rounded (fin (Num 2) - fin e) (num_sub U (Num 2) e)"
    using U e(1) by (intro rounded_sub) simp_all
  then have rs: "rounded (2 - fin e) s" by (simp add: s)
  have a1: "\<bar>2 - fin e\<bar> \<le> 38" using e(2,3) by (simp add: abs_le_iff)
  then have "\<bar>2 - fin e\<bar> < 2 ^ 53" by simp
  note es = rounded_err(1,2) [OF rs this]
  have "\<bar>2 - fin e\<bar> / 2 ^ 53 \<le> 38 / 2 ^ 53"
    using a1 by (intro divide_right_mono) simp_all
  then have d1: "\<bar>fin s - (2 - fin e)\<bar> \<le> 38 / 2 ^ 53 + tiny"
    using es(2) by linarith
  have t1: "tiny \<le> 1 / 2 ^ 60" by (simp add: tiny_def)
  have t0: "0 \<le> tiny" by (simp add: tiny_def)
  have "(38::real) / 2 ^ 53 \<le> 1 / 2" by simp
  then have a2: "\<bar>fin e + fin s\<bar> \<le> 3" "\<bar>fin s + fin e\<bar> \<le> 3"
    using d1 t1 by (simp_all add: abs_le_iff)
  have fin_bound: "is_fin c \<and> \<bar>fin c - 2\<bar> \<le> 1 / 10 ^ 14"
    if r: "rounded (fin e + fin s) c" for c
  proof -
    have "\<bar>fin e + fin s\<bar> < 2 ^ 53" using a2(1) by simp
    note ec = rounded_err(1,2) [OF r this]
    have "\<bar>fin e + fin s\<bar> / 2 ^ 53 \<le> 3 / 2 ^ 53"
      using a2(1) by (intro divide_right_mono) simp_all
    then have d2: "\<bar>fin c - (fin e + fin s)\<bar> \<le> 3 / 2 ^ 53 + tiny"
      using ec(2) by linarith
    have "fin c - 2 = (fin c - (fin e + fin s)) + (fin s - (2 - fin e))" by simp
    then have "\<bar>fin c - 2\<bar> \<le> \<bar>fin c - (fin e + fin s)\<bar> + \<bar>fin s - (2 - fin e)\<bar>"
      by (simp only: abs_triangle_ineq)
    then have "\<bar>fin c - 2\<bar> \<le> 41 / 2 ^ 53 + 2 * tiny" using d1 d2 by linarith
    moreover have "(41::real) / 2 ^ 53 + 2 * (1 / 2 ^ 60) \<le> 1 / 10 ^ 14" by simp
    ultimately have "\<bar>fin c - 2\<bar> \<le> 1 / 10 ^ 14" using t1 by linarith
    then show ?thesis using ec(1) by simp
  qed
  have r1: "rounded (fin e + fin s) (num_add U e s)"
    using U e(1) es(1) by (rule rounded_add)
  have "rounded (fin s + fin e) (num_add U s e)"
    using U es(1) e(1) by (rule rounded_add)
  then have r2: "rounded (fin e + fin s) (num_add U s e)" by (simp add: add.commute)
  show "is_fin (num_add U e s)" "\<bar>fin (num_add U e s) - 2\<bar> \<le> 1 / 10 ^ 14"
    using fin_bound [OF r1] by simp_all
  show "is_fin (num_add U s e)" "\<bar>fin (num_add U s e) - 2\<bar> \<le> 1 / 10 ^ 14"
    using fin_bound [OF r2] by simp_all
qed

text \<open>
  Claim C8. In binary64 arithmetic, for every finite \<open>x\<close> the sum
  \<open>erfc(x) + erfc(-x)\<close> is finite and within \<open>1e-14\<close> of 2; and, in every arithmetic,
  \<open>erfc(y)\<close> returns 0 for every \<open>y \<ge> 30\<close> and \<open>2 - erfc(-y)\<close> for every
  \<open>y < 0\<close>.
\<close>

theorem erfc_reflection:
  assumes "binary64 U" "is_fin x"
  shows "is_fin (num_add U (erfc U x) (erfc U (num_neg x)))
       \<and> \<bar>fin (num_add U (erfc U x) (erfc U (num_neg x))) - 2\<bar> \<le> 1 / 10 ^ 14
       \<and> (\<forall>y. num_ge y (Num 30) \<longrightarrow> erfc U y = Num 0)
       \<and> (\<forall>y. num_lt y (Num 0) \<longrightarrow> erfc U y = num_sub U (Num 2) (erfc U (num_neg y)))"
proof -
  let ?t = "num_add U (erfc U x) (erfc U (num_neg x))"
  have main: "is_fin ?t \<and> \<bar>fin ?t - 2\<bar> \<le> 1 / 10 ^ 14"
  proof -
    consider "fin x = 0" | "0 < fin x" | "fin x < 0" by linarith
    then show ?thesis
    proof cases
      case 1
      have n: "is_fin (num_neg x)" "fin (num_neg x) = 0"
        using neg_zero [OF assms(2) 1] by simp_all
      have e1: "erfc U x = Num (4503599627370495 / 4503599627370496)"
        using assms 1 by (rule erfc_zero)
      have e2: "erfc U (num_neg x) = Num (4503599627370495 / 4503599627370496)"
        using assms(1) n by (rule erfc_zero)
      have "num_add U (Num (4503599627370495 / 4503599627370496))
              (Num (4503599627370495 / 4503599627370496))
          = Num (4503599627370495 / 2251799813685248)"
        using assms(1)
        by (intro add_val [where k = 52]) (simp_all add: is_scale_def round_at_def rne_def)
      then have "?t = Num (4503599627370495 / 2251799813685248)"
        by (simp only: e1 e2)
      then show ?thesis by simp
    next
      case 2
      show ?thesis using reflect_pair(1,2) [OF assms 2] by simp
    next
      case 3
      let ?y = "num_neg x"
      have y: "is_fin ?y" "0 < fin ?y"
        using neg_fin [OF assms(2)] 3 by simp_all
      have "num_neg ?y = x" using assms(2) 3 by (intro neg_neg) simp_all
      then show ?thesis using reflect_pair(3,4) [OF assms(1) y] by simp
    qed
  qed
  show ?thesis
    using main by (simp add: erfc_saturates erfc_reflects)
qed

theorem erfc_reflection_witness:
  "binary64 b64_fpu \<and> is_fin (Num 1)
   \<and> \<bar>fin (num_add b64_fpu (erfc b64_fpu (Num 1)) (erfc b64_fpu (num_neg (Num 1)))) - 2\<bar>
       \<le> 1 / 10 ^ 14"
proof -
  have f: "is_fin (Num 1)" by simp
  show ?thesis
    using binary64_b64 f erfc_reflection [OF binary64_b64 f] by blast
qed

end
